theory Spec2Isabelle
  imports Main "HOL-Library.Word"
begin

unbundle bit_operations_syntax

section \<open>Python values used by faba\_ntag.py\<close>

text \<open>
  A byte is an element of a \<open>bytearray\<close>, or an \<open>int\<close> in \<open>range(256)\<close> held in a list
  that is later passed to \<open>bytes(...)\<close>. A Python \<open>str\<close> is a sequence of Unicode code
  points; page numbers, sizes and counters are unbounded Python integers.
\<close>

type_synonym byte = "8 word"
type_synonym str = "nat list"

definition py_str :: "string \<Rightarrow> str" where
  "py_str s = map of_char s"

datatype py_error =
    TypeError
  | IndexError
  | UnicodeDecodeError
  | UnicodeEncodeError
  | ValueError
  | DriverError

text \<open>Python's \<open>xs[i:j]\<close>, negative indices counting from the end.\<close>

definition py_slice :: "'a list \<Rightarrow> int \<Rightarrow> int \<Rightarrow> 'a list" where
  "py_slice xs i j =
     (let n = int (length xs);
          a = (if i < 0 then max 0 (n + i) else min i n);
          b = (if j < 0 then max 0 (n + j) else min j n)
      in take (nat (b - a)) (drop (nat a) xs))"

text \<open>Python's \<open>xs * k\<close> on a list: the empty list when \<open>k\<close> is zero or negative.\<close>

definition list_mul :: "'a list \<Rightarrow> int \<Rightarrow> 'a list" where
  "list_mul xs k = concat (replicate (nat k) xs)"

text \<open>Python's \<open>xs[i]\<close> for \<open>i \<ge> 0\<close>: IndexError out of range.\<close>

definition subscript :: "'a list \<Rightarrow> nat \<Rightarrow> py_error + 'a" where
  "subscript xs i = (if i < length xs then Inr (xs ! i) else Inl IndexError)"

text \<open>\<open>sep.join(parts)\<close>.\<close>

fun join :: "str \<Rightarrow> str list \<Rightarrow> str" where
  "join sep [] = []"
| "join sep [x] = x"
| "join sep (x # y # ys) = x @ sep @ join sep (y # ys)"

text \<open>\<open>text.startswith(p)\<close>.\<close>

definition startswith :: "str \<Rightarrow> str \<Rightarrow> bool" where
  "startswith t p = (take (length p) t = p)"

subsection \<open>Hexadecimal formatting\<close>

definition hex_upper :: "nat \<Rightarrow> char" where
  "hex_upper d = ''0123456789ABCDEF'' ! d"

definition hex_lower :: "nat \<Rightarrow> char" where
  "hex_lower d = ''0123456789abcdef'' ! d"

text \<open>\<open>f'{byte:02X}'\<close> on a byte: exactly two upper-case digits.\<close>

definition format_02X :: "byte \<Rightarrow> str" where
  "format_02X b = py_str [hex_upper (unat b div 16), hex_upper (unat b mod 16)]"

text \<open>\<open>bytes.hex()\<close>: two lower-case digits per byte.\<close>

definition bytes_hex :: "byte list \<Rightarrow> str" where
  "bytes_hex bs = concat (map (\<lambda>b. py_str [hex_lower (unat b div 16), hex_lower (unat b mod 16)]) bs)"

text \<open>The value of one hexadecimal digit as \<open>int(s, 16)\<close> reads it; \<open>None\<close> is ValueError.\<close>

definition hex_value :: "nat \<Rightarrow> nat option" where
  "hex_value c =
     (if 48 \<le> c \<and> c \<le> 57 then Some (c - 48)
      else if 97 \<le> c \<and> c \<le> 102 then Some (c - 87)
      else if 65 \<le> c \<and> c \<le> 70 then Some (c - 55)
      else None)"

text \<open>
  \<open>int(s, 16)\<close> on a string of hexadecimal digits (the only strings the program passes
  are the two-digit slices of \<open>bytes.hex()\<close>); \<open>None\<close> stands for ValueError.
\<close>

fun int_16_acc :: "nat \<Rightarrow> str \<Rightarrow> nat option" where
  "int_16_acc acc [] = Some acc"
| "int_16_acc acc (c # cs) =
     (case hex_value c of None \<Rightarrow> None | Some d \<Rightarrow> int_16_acc (16 * acc + d) cs)"

definition int_16 :: "str \<Rightarrow> nat option" where
  "int_16 s = (if s = [] then None else int_16_acc 0 s)"

subsection \<open>Codecs of the Python standard library\<close>

text \<open>
  \<open>str.encode('utf-8')\<close> in strict mode: surrogate code points cannot be encoded, and a
  \<open>str\<close> holds no code point above U+10FFFF.
\<close>

definition utf8_encode_char :: "nat \<Rightarrow> py_error + byte list" where
  "utf8_encode_char c =
     (if c < 0x80 then Inr [of_nat c]
      else if c < 0x800 then Inr [of_nat (0xC0 + c div 64), of_nat (0x80 + c mod 64)]
      else if 0xD800 \<le> c \<and> c \<le> 0xDFFF then Inl UnicodeEncodeError
      else if c < 0x10000 then
        Inr [of_nat (0xE0 + c div 4096), of_nat (0x80 + c div 64 mod 64), of_nat (0x80 + c mod 64)]
      else if c < 0x110000 then
        Inr [of_nat (0xF0 + c div 262144), of_nat (0x80 + c div 4096 mod 64),
             of_nat (0x80 + c div 64 mod 64), of_nat (0x80 + c mod 64)]
      else Inl UnicodeEncodeError)"

fun utf8_encode :: "str \<Rightarrow> py_error + byte list" where
  "utf8_encode [] = Inr []"
| "utf8_encode (c # cs) =
     (case utf8_encode_char c of
        Inl e \<Rightarrow> Inl e
      | Inr bs \<Rightarrow> (case utf8_encode cs of Inl e \<Rightarrow> Inl e | Inr rest \<Rightarrow> Inr (bs @ rest)))"

text \<open>\<open>bytes.decode('ascii')\<close>: every byte must be below 0x80.\<close>

fun ascii_decode :: "byte list \<Rightarrow> py_error + str" where
  "ascii_decode [] = Inr []"
| "ascii_decode (b # bs) =
     (if unat b < 0x80
      then (case ascii_decode bs of Inl e \<Rightarrow> Inl e | Inr cs \<Rightarrow> Inr (unat b # cs))
      else Inl UnicodeDecodeError)"

text \<open>
  \<open>bytes.decode('UTF-8')\<close> in strict mode: shortest form only, no surrogates, nothing
  above U+10FFFF, every continuation byte in 0x80..0xBF.
\<close>

definition is_cont :: "byte \<Rightarrow> bool" where
  "is_cont b = (0x80 \<le> unat b \<and> unat b \<le> 0xBF)"

definition cont_bits :: "byte \<Rightarrow> nat" where
  "cont_bits b = unat b - 0x80"

definition decoded :: "nat \<Rightarrow> py_error + str \<Rightarrow> py_error + str" where
  "decoded c r = (case r of Inl e \<Rightarrow> Inl e | Inr cs \<Rightarrow> Inr (c # cs))"

fun utf8_decode :: "byte list \<Rightarrow> py_error + str" where
  "utf8_decode [] = Inr []"
| "utf8_decode (b # bs) =
     (let n = unat b in
      if n < 0x80 then decoded n (utf8_decode bs)
      else if 0xC2 \<le> n \<and> n \<le> 0xDF then
        (case bs of
           c1 # r \<Rightarrow>
             if is_cont c1 then decoded ((n - 0xC0) * 64 + cont_bits c1) (utf8_decode r)
             else Inl UnicodeDecodeError
         | _ \<Rightarrow> Inl UnicodeDecodeError)
      else if 0xE0 \<le> n \<and> n \<le> 0xEF then
        (case bs of
           c1 # c2 # r \<Rightarrow>
             if (if n = 0xE0 then 0xA0 else 0x80) \<le> unat c1
                \<and> unat c1 \<le> (if n = 0xED then 0x9F else 0xBF) \<and> is_cont c2
             then decoded ((n - 0xE0) * 4096 + cont_bits c1 * 64 + cont_bits c2) (utf8_decode r)
             else Inl UnicodeDecodeError
         | _ \<Rightarrow> Inl UnicodeDecodeError)
      else if 0xF0 \<le> n \<and> n \<le> 0xF4 then
        (case bs of
           c1 # c2 # c3 # r \<Rightarrow>
             if (if n = 0xF0 then 0x90 else 0x80) \<le> unat c1
                \<and> unat c1 \<le> (if n = 0xF4 then 0x8F else 0xBF) \<and> is_cont c2 \<and> is_cont c3
             then decoded ((n - 0xF0) * 262144 + cont_bits c1 * 4096 + cont_bits c2 * 64 + cont_bits c3)
                    (utf8_decode r)
             else Inl UnicodeDecodeError
         | _ \<Rightarrow> Inl UnicodeDecodeError)
      else Inl UnicodeDecodeError)"

text \<open>
  \<open>bytes.decode('UTF-16')\<close> in strict mode. A leading byte order mark FF FE or FE FF
  selects the byte order and is dropped; without one CPython uses the byte order of the
  host, which is little-endian on the machines the script's serial adapters attach to.
  A truncated code unit and an unpaired surrogate are errors.
\<close>

definition code_unit :: "bool \<Rightarrow> byte \<Rightarrow> byte \<Rightarrow> nat" where
  "code_unit little b0 b1 = (if little then unat b0 + 256 * unat b1 else unat b1 + 256 * unat b0)"

fun utf16_units :: "bool \<Rightarrow> byte list \<Rightarrow> py_error + str" where
  "utf16_units little [] = Inr []"
| "utf16_units little [b] = Inl UnicodeDecodeError"
| "utf16_units little (b0 # b1 # bs) =
     (let u = code_unit little b0 b1 in
      if 0xD800 \<le> u \<and> u \<le> 0xDBFF then
        (case bs of
           b2 # b3 # r \<Rightarrow>
             (let v = code_unit little b2 b3 in
              if 0xDC00 \<le> v \<and> v \<le> 0xDFFF
              then decoded (0x10000 + (u - 0xD800) * 1024 + (v - 0xDC00)) (utf16_units little r)
              else Inl UnicodeDecodeError)
         | _ \<Rightarrow> Inl UnicodeDecodeError)
      else if 0xDC00 \<le> u \<and> u \<le> 0xDFFF then Inl UnicodeDecodeError
      else decoded u (utf16_units little bs))"

definition utf16_decode :: "byte list \<Rightarrow> py_error + str" where
  "utf16_decode bs =
     (case bs of
        b0 # b1 # r \<Rightarrow>
          if b0 = 0xFF \<and> b1 = 0xFE then utf16_units True r
          else if b0 = 0xFE \<and> b1 = 0xFF then utf16_units False r
          else utf16_units True bs
      | _ \<Rightarrow> utf16_units True bs)"

datatype encoding = UTF_16 | UTF_8

definition decode :: "encoding \<Rightarrow> byte list \<Rightarrow> py_error + str" where
  "decode enc bs = (case enc of UTF_16 \<Rightarrow> utf16_decode bs | UTF_8 \<Rightarrow> utf8_decode bs)"

text \<open>
  \<open>string.printable\<close>: digits, ASCII letters, punctuation and whitespace, in the order of
  the standard library (its last four characters are CR, LF, VT and FF).
\<close>

definition string_printable :: str where
  "string_printable =
     py_str ''0123456789abcdefghijklmnopqrstuvwxyzABCDEFGHIJKLMNOPQRSTUVWXYZ''
     @ [33, 34, 35, 36, 37, 38, 39, 40, 41, 42, 43, 44, 45, 46, 47, 58, 59, 60, 61, 62, 63, 64,
        91, 92, 93, 94, 95, 96, 123, 124, 125, 126]
     @ [32, 9, 10, 13, 11, 12]"

section \<open>The tag: class NTAGData\<close>

text \<open>
  \<open>pages\<close> is a Python dict from page number to page content: a finite map that keeps
  insertion order, here an association list with distinct keys. \<open>code\<close> is the attribute
  that \<open>parse_text\<close> creates when it finds an identifier.
\<close>

record NTAGData =
  pages :: "(int \<times> byte list) list"
  uid :: "byte list option"
  type :: str
  size_ntag :: int
  code :: "str option"

definition NTAGData_init :: NTAGData where
  "NTAGData_init = \<lparr>pages = [], uid = None, type = py_str ''Unknown'', size_ntag = 0, code = None\<rparr>"

fun dict_set :: "(int \<times> 'v) list \<Rightarrow> int \<Rightarrow> 'v \<Rightarrow> (int \<times> 'v) list" where
  "dict_set [] k v = [(k, v)]"
| "dict_set ((k', v') # kvs) k v = (if k' = k then (k, v) # kvs else (k', v') # dict_set kvs k v)"

definition add_page :: "NTAGData \<Rightarrow> int \<Rightarrow> byte list \<Rightarrow> NTAGData" where
  "add_page ntag page data = ntag\<lparr>pages := dict_set (pages ntag) page data\<rparr>"

text \<open>\<open>NTAGData.read_page\<close>: \<open>None\<close> when the page is not in the dict.\<close>

definition read_page_ntag :: "NTAGData \<Rightarrow> int \<Rightarrow> byte list option" where
  "read_page_ntag ntag page_number = map_of (pages ntag) page_number"

section \<open>The reader: the PN532 driver object\<close>

text \<open>
  The driver is outside the program. Every call the program makes is appended to a list of
  commands; what a call answers may depend on everything issued before it, so a tag that is
  removed or exchanged between two calls is one particular driver. A call either returns
  or raises; \<open>read_passive_target\<close> returns \<open>None\<close> on a timeout, \<open>ntag2xx_read_block\<close>
  returns \<open>None\<close> when the tag does not answer.
\<close>

datatype command = ReadPassiveTarget | ReadBlock int | WriteBlock int "byte list"

datatype 'a resp = Returned 'a | Raised

record PN532 =
  read_passive_target :: "command list \<Rightarrow> byte list option resp"
  ntag2xx_read_block :: "command list \<Rightarrow> int \<Rightarrow> byte list option resp"
  ntag2xx_write_block :: "command list \<Rightarrow> int \<Rightarrow> byte list \<Rightarrow> bool resp"

text \<open>\<open>wait_for_card\<close> polls until a UID is returned; it need not return.\<close>

partial_function (option) wait_for_card ::
  "PN532 \<Rightarrow> command list \<Rightarrow> ((py_error + byte list) \<times> command list) option" where
  "wait_for_card pn532 tr =
     (case read_passive_target pn532 tr of
        Raised \<Rightarrow> Some (Inl DriverError, tr @ [ReadPassiveTarget])
      | Returned None \<Rightarrow> wait_for_card pn532 (tr @ [ReadPassiveTarget])
      | Returned (Some u) \<Rightarrow>
          if u \<noteq> [] then Some (Inr u, tr @ [ReadPassiveTarget])
          else wait_for_card pn532 (tr @ [ReadPassiveTarget]))"

declare wait_for_card.simps [code]

text \<open>The module-level \<open>read_page\<close>: an exception of the driver becomes \<open>None\<close>.\<close>

definition read_page :: "PN532 \<Rightarrow> command list \<Rightarrow> int \<Rightarrow> byte list option \<times> command list" where
  "read_page pn532 tr page =
     ((case ntag2xx_read_block pn532 tr page of Returned data \<Rightarrow> data | Raised \<Rightarrow> None),
      tr @ [ReadBlock page])"

section \<open>detect\_card\<close>

text \<open>
  The \<open>while True\<close> loop of \<open>detect_card\<close>: it stops at the first read that gives
  \<open>None\<close> or no bytes, and returns the number of that page.
\<close>

partial_function (option) detect_card_loop ::
  "PN532 \<Rightarrow> command list \<Rightarrow> NTAGData \<Rightarrow> int \<Rightarrow> (int \<times> NTAGData \<times> command list) option" where
  "detect_card_loop pn532 tr ntag page =
     (case read_page pn532 tr page of
        (None, tr') \<Rightarrow> Some (page, ntag, tr')
      | (Some data, tr') \<Rightarrow>
          if data = [] then Some (page, ntag, tr')
          else detect_card_loop pn532 tr' (add_page ntag page data) (page + 1))"

declare detect_card_loop.simps [code]

text \<open>
  \<open>detect_card\<close> returns \<open>True\<close> or raises; the model returns the tag it has filled in.
  \<open>None\<close> is a run that never returns.
\<close>

definition detect_card ::
  "PN532 \<Rightarrow> command list \<Rightarrow> NTAGData \<Rightarrow> ((py_error + NTAGData) \<times> command list) option" where
  "detect_card pn532 tr ntag =
     (case wait_for_card pn532 tr of
        None \<Rightarrow> None
      | Some (Inl e, tr1) \<Rightarrow> Some (Inl e, tr1)
      | Some (Inr u, tr1) \<Rightarrow>
          (case detect_card_loop pn532 tr1 (ntag\<lparr>uid := Some u\<rparr>) 0 of
             None \<Rightarrow> None
           | Some (page, ntag1, tr2) \<Rightarrow>
               Some
                ((case read_page_ntag ntag1 3 of
                    None \<Rightarrow> Inl TypeError
                  | Some page3 \<Rightarrow>
                      (case subscript page3 2 of
                         Inl e \<Rightarrow> Inl e
                       | Inr cc_byte \<Rightarrow>
                           Inr
                            (if cc_byte = 0x12 then
                               (if page = 42 then ntag1\<lparr>type := py_str ''NTAG203'', size_ntag := page\<rparr>
                                else if page = 45 then ntag1\<lparr>type := py_str ''NTAG213'', size_ntag := page\<rparr>
                                else ntag1\<lparr>type := py_str ''NTAG213'', size_ntag := 45\<rparr>)
                             else if cc_byte = 0x3E then
                               (if page = 135 then ntag1\<lparr>type := py_str ''NTAG215'', size_ntag := page\<rparr>
                                else ntag1\<lparr>type := py_str ''NTAG215'', size_ntag := 135\<rparr>)
                             else if cc_byte = 0x6D then
                               (if page = 231 then ntag1\<lparr>type := py_str ''NTAG216'', size_ntag := page\<rparr>
                                else ntag1\<lparr>type := py_str ''NTAG216'', size_ntag := 231\<rparr>)
                             else ntag1\<lparr>type := py_str ''Unknown'', size_ntag := page\<rparr>))),
                 tr2)))"

section \<open>parse\_text\<close>

text \<open>The \<open>for byte in page_data\<close> loop: it leaves the page at the first 0xFE.\<close>

fun parse_text_page :: "byte list \<Rightarrow> byte list \<Rightarrow> int \<Rightarrow> byte list \<times> int" where
  "parse_text_page [] full_payload remaining_bytes = (full_payload, remaining_bytes)"
| "parse_text_page (byte # page_data) full_payload remaining_bytes =
     (if remaining_bytes = 0 \<or> byte = 0xFE then (full_payload, remaining_bytes)
      else parse_text_page page_data (full_payload @ [byte]) (remaining_bytes - 1))"

text \<open>
  The \<open>while remaining_bytes > 0\<close> loop. It ends because the dict is finite: every turn
  moves to the next page number, and a missing page breaks out.
\<close>

function parse_text_payload :: "NTAGData \<Rightarrow> byte list \<Rightarrow> int \<Rightarrow> int \<Rightarrow> byte list" where
  "parse_text_payload ntag full_payload next_page remaining_bytes =
     (if remaining_bytes > 0 then
        (case read_page_ntag ntag next_page of
           None \<Rightarrow> full_payload
         | Some page_data \<Rightarrow>
             (case parse_text_page page_data full_payload remaining_bytes of
                (full_payload', remaining_bytes') \<Rightarrow>
                  parse_text_payload ntag full_payload' (next_page + 1) remaining_bytes'))
      else full_payload)"
  by pat_completeness auto
termination
proof (relation "measure (\<lambda>(ntag, full_payload, next_page, remaining_bytes).
          length (filter (\<lambda>kv. next_page \<le> fst kv) (pages ntag)))")
  show "wf (measure (\<lambda>(ntag, full_payload, next_page, remaining_bytes).
          length (filter (\<lambda>kv. next_page \<le> fst kv) (pages ntag))))"
    by simp
next
  fix ntag :: NTAGData and full_payload :: "byte list" and next_page remaining_bytes :: int
    and page_data x y
  assume "read_page_ntag ntag next_page = Some page_data"
  then have mem: "(next_page, page_data) \<in> set (pages ntag)"
    by (simp add: read_page_ntag_def map_of_SomeD)
  have "filter (\<lambda>kv. next_page + 1 \<le> fst kv) (pages ntag)
        = filter (\<lambda>kv. next_page + 1 \<le> fst kv) (filter (\<lambda>kv. next_page \<le> fst kv) (pages ntag))"
    by (simp add: conj_commute cong: filter_cong) (rule filter_cong, auto)
  moreover have "length (filter (\<lambda>kv. next_page + 1 \<le> fst kv) (filter (\<lambda>kv. next_page \<le> fst kv) (pages ntag)))
        < length (filter (\<lambda>kv. next_page \<le> fst kv) (pages ntag))"
    by (rule length_filter_less [where x = "(next_page, page_data)"]) (use mem in auto)
  ultimately show "((ntag, x, next_page + 1, y), (ntag, full_payload, next_page, remaining_bytes))
        \<in> measure (\<lambda>(ntag, full_payload, next_page, remaining_bytes).
          length (filter (\<lambda>kv. next_page \<le> fst kv) (pages ntag)))"
    by simp
qed

declare parse_text_payload.simps [simp del]

text \<open>
  What \<open>parse_text\<close> logs at level info or error, in order. The function returns nothing;
  its effect is the log and, when an identifier is found, the attribute \<open>ntag.code\<close>.
\<close>

datatype parse_log =
    FailedToReadPage6
  | NoTextRecordFound byte
  | InvalidNdefRecord
  | FabaID str
  | NoValidFabaId

definition parse_text :: "NTAGData \<Rightarrow> py_error + (parse_log list \<times> NTAGData)" where
  "parse_text ntag =
     (case read_page_ntag ntag 6 of
        None \<Rightarrow> Inr ([FailedToReadPage6], ntag)
      | Some page6 \<Rightarrow>
     (case subscript page6 0 of Inl e \<Rightarrow> Inl e | Inr ndef_header \<Rightarrow>
     (case subscript page6 1 of Inl e \<Rightarrow> Inl e | Inr payload_length \<Rightarrow>
     (case subscript page6 2 of Inl e \<Rightarrow> Inl e | Inr type_field \<Rightarrow>
     (case subscript page6 3 of Inl e \<Rightarrow> Inl e | Inr status_byte \<Rightarrow>
        (let log1 = (if type_field \<noteq> 0x54 then [NoTextRecordFound type_field] else []);
             lang_length = unat (status_byte AND 0x3F);
             encoding = (if status_byte AND 0x80 \<noteq> 0 then UTF_16 else UTF_8);
             full_payload = parse_text_payload ntag [] 7 (uint payload_length)
         in if length full_payload < lang_length then Inr (log1 @ [InvalidNdefRecord], ntag)
            else
              (case ascii_decode (take lang_length full_payload) of
                 Inl e \<Rightarrow> Inl e
               | Inr lang_code \<Rightarrow>
                   (case decode encoding (drop lang_length full_payload) of
                      Inl e \<Rightarrow> Inl e
                    | Inr text_content \<Rightarrow>
                        if startswith text_content (py_str ''02190530'') \<and> length text_content \<ge> 12
                        then (let extracted_id = py_slice text_content 8 12
                              in Inr (log1 @ [FabaID extracted_id], ntag\<lparr>code := Some extracted_id\<rparr>))
                        else Inr (log1 @ [NoValidFabaId], ntag)))))))))"

section \<open>create\_byte\_array and encode\_faba\_id\<close>

definition size_to_mlen :: "(int \<times> byte) list" where
  "size_to_mlen = [(42, 0x6D), (45, 0xA0), (135, 0xE0), (231, 0xFA)]"

text \<open>
  The body shared by the two page-copying loops: a page that is present with exactly four
  bytes is appended, anything else is replaced by four zero bytes.
\<close>

fun extend_pages :: "NTAGData \<Rightarrow> int list \<Rightarrow> byte list" where
  "extend_pages ntag [] = []"
| "extend_pages ntag (i # is) =
     (case read_page_ntag ntag i of
        Some page \<Rightarrow> (if length page = 4 then page else list_mul [0x00] 4)
      | None \<Rightarrow> list_mul [0x00] 4) @ extend_pages ntag is"

text \<open>\<open>[int(hex_data[i:i+2], 16) for i in range(0, len(hex_data), 2)]\<close>.\<close>

fun hex_pairs :: "str \<Rightarrow> int list \<Rightarrow> py_error + byte list" where
  "hex_pairs hex_data [] = Inr []"
| "hex_pairs hex_data (i # is) =
     (case int_16 (py_slice hex_data i (i + 2)) of
        None \<Rightarrow> Inl ValueError
      | Some v \<Rightarrow> (case hex_pairs hex_data is of Inl e \<Rightarrow> Inl e | Inr vs \<Rightarrow> Inr (of_nat v # vs)))"

definition range_step2 :: "nat \<Rightarrow> int list" where
  "range_step2 n = map (\<lambda>k. 2 * int k) [0..<(n + 1) div 2]"

definition last5 :: "byte list" where
  "last5 = [0x00, 0x00, 0x00, 0xBD,
            0x04, 0x00, 0x00, 0xFF,
            0x00, 0x00, 0x00, 0x00,
            0x00, 0x00, 0x00, 0x00,
            0x00, 0x00, 0x00, 0x00]"

definition create_byte_array :: "str option \<Rightarrow> NTAGData \<Rightarrow> py_error + byte list" where
  "create_byte_array input_str ntag =
     (let mlen = (case map_of size_to_mlen (size_ntag ntag) of Some m \<Rightarrow> m | None \<Rightarrow> 0xA0);
          page04 = [0x01, 0x03, mlen, 0x0C];
          page05 = [0x34, 0x03, 0x15, 0xD1];
          page06 = [0x01, 0x11, 0x54, 0x02];
          page11 = [0xFE, 0x00, 0x00, 0x00];
          pages0_3 = extend_pages ntag [0, 1, 2, 3]
      in case (case input_str of
                 None \<Rightarrow> Inr (extend_pages ntag [7, 8, 9, 10])
               | Some s \<Rightarrow>
                   if s \<noteq> [] then
                     (case utf8_encode s of
                        Inl e \<Rightarrow> Inl e
                      | Inr bs \<Rightarrow>
                          (let hex_data = bytes_hex bs
                           in hex_pairs hex_data (range_step2 (length hex_data))))
                   else Inr (extend_pages ntag [7, 8, 9, 10])) of
           Inl e \<Rightarrow> Inl e
         | Inr pages7_10 \<Rightarrow>
             Inr (pages0_3 @ page04 @ page05 @ page06 @ pages7_10 @ page11
                  @ list_mul (list_mul [0x00] (size_ntag ntag - 17)) 4 @ last5))"

definition encode_faba_id :: "str \<Rightarrow> str" where
  "encode_faba_id id_str = py_str ''en02190530'' @ id_str @ py_str ''00''"

section \<open>write\_blocks and verify\_blocks\<close>

text \<open>
  Both functions return a bool. Every \<open>return False\<close> follows its own
  \<open>logging.error\<close> line, and the result below names that line; \<open>returned_bool\<close> is what
  the caller sees.
\<close>

datatype write_result =
    AllWritten
  | FailedWritingPage int
  | ErrorWritingPage int
  | UidNotMatching

fun write_blocks_loop ::
  "PN532 \<Rightarrow> command list \<Rightarrow> byte list \<Rightarrow> int list \<Rightarrow> write_result \<times> command list" where
  "write_blocks_loop pn532 tr byte_array [] = (AllWritten, tr)"
| "write_blocks_loop pn532 tr byte_array (block_num # rest) =
     (let start_idx = block_num * 4;
          end_idx = start_idx + 4;
          block_data = py_slice byte_array start_idx end_idx
      in case ntag2xx_write_block pn532 tr block_num block_data of
           Raised \<Rightarrow> (ErrorWritingPage block_num, tr @ [WriteBlock block_num block_data])
         | Returned wr \<Rightarrow>
             if wr = False then (FailedWritingPage block_num, tr @ [WriteBlock block_num block_data])
             else write_blocks_loop pn532 (tr @ [WriteBlock block_num block_data]) byte_array rest)"

definition write_blocks ::
  "PN532 \<Rightarrow> command list \<Rightarrow> byte list \<Rightarrow> int \<Rightarrow> int \<Rightarrow> NTAGData
     \<Rightarrow> (py_error + write_result) \<times> command list" where
  "write_blocks pn532 tr byte_array start end ntag =
     (case read_passive_target pn532 tr of
        Raised \<Rightarrow> (Inl DriverError, tr @ [ReadPassiveTarget])
      | Returned u \<Rightarrow>
          if u = uid ntag then
            (case write_blocks_loop pn532 (tr @ [ReadPassiveTarget]) byte_array [start..end] of
               (r, tr') \<Rightarrow> (Inr r, tr'))
          else (Inr UidNotMatching, tr @ [ReadPassiveTarget]))"

datatype verify_result =
    AllVerified
  | FailedToReadPage int
  | MismatchAtPage int str str

fun verify_blocks_loop ::
  "PN532 \<Rightarrow> command list \<Rightarrow> byte list \<Rightarrow> int list \<Rightarrow> verify_result \<times> command list" where
  "verify_blocks_loop pn532 tr byte_array [] = (AllVerified, tr)"
| "verify_blocks_loop pn532 tr byte_array (block_num # rest) =
     (let start_idx = block_num * 4;
          end_idx = start_idx + 4;
          expected_data = py_slice byte_array start_idx end_idx
      in case read_page pn532 tr block_num of
           (None, tr') \<Rightarrow> (FailedToReadPage block_num, tr')
         | (Some read_data, tr') \<Rightarrow>
             (let expected_hex = join (py_str '' '') (map format_02X expected_data);
                  read_hex = join (py_str '' '') (map format_02X read_data)
              in if expected_hex \<noteq> read_hex
                 then (MismatchAtPage block_num expected_hex read_hex, tr')
                 else verify_blocks_loop pn532 tr' byte_array rest))"

definition verify_blocks ::
  "PN532 \<Rightarrow> command list \<Rightarrow> byte list \<Rightarrow> int \<Rightarrow> int \<Rightarrow> verify_result \<times> command list" where
  "verify_blocks pn532 tr byte_array start end = verify_blocks_loop pn532 tr byte_array [start..end]"

section \<open>dump\_ntag and write\_ntag\<close>

text \<open>
  A byte image reaches \<open>dump_ntag\<close> as a Python list of integers (what
  \<open>create_byte_array\<close> returns) or as a bytearray (what \<open>get_all_bytes\<close> returns on the
  dump path). The two differ in one statement of the serializers,
  \<open>chunk += [0] * (4 - len(chunk))\<close>: it extends a list and raises TypeError on a
  bytearray.
\<close>

datatype image = ListImage "byte list" | BytearrayImage "byte list"

fun image_bytes :: "image \<Rightarrow> byte list" where
  "image_bytes (ListImage byte_array) = byte_array"
| "image_bytes (BytearrayImage byte_array) = byte_array"

text \<open>
  The loop \<open>for i in range(0, len(byte_array), 4)\<close> of \<open>save_raw\<close> and \<open>save_flipper\<close>
  runs to its end: only the last chunk can be short, and padding it fails on a bytearray.
\<close>

definition chunks_formatted :: "image \<Rightarrow> bool" where
  "chunks_formatted img =
     (case img of
        ListImage byte_array \<Rightarrow> True
      | BytearrayImage byte_array \<Rightarrow> length byte_array mod 4 = 0)"

text \<open>
  The three serializers. Each first builds its file name from the stem; inside its
  \<open>try\<close> it formats the lines and then opens the file. The model gives the file name and
  whether the serializer gets as far as opening the file (an exception before that is
  logged and the function returns \<open>False\<close>); the text written and the answer of the file
  system are not modelled. \<open>save_ndef\<close> formats before its \<open>try\<close> and cannot fail there;
  \<open>save_flipper\<close> also formats \<open>ntag.uid\<close>, which raises when the UID is \<open>None\<close>.
\<close>

definition save_raw :: "image \<Rightarrow> str \<Rightarrow> str \<times> bool" where
  "save_raw byte_array filename = (filename @ py_str ''.raw'', chunks_formatted byte_array)"

definition save_ndef :: "image \<Rightarrow> str \<Rightarrow> str \<times> bool" where
  "save_ndef byte_array filename = (filename @ py_str ''.ndef'', True)"

definition save_flipper :: "image \<Rightarrow> NTAGData \<Rightarrow> str \<Rightarrow> str \<times> bool" where
  "save_flipper byte_array ntag filename =
     (filename @ py_str ''.nfc'', uid ntag \<noteq> None \<and> chunks_formatted byte_array)"

text \<open>\<open>chr(byte) in string.printable and byte >= 0x20\<close>.\<close>

definition printable :: "byte \<Rightarrow> bool" where
  "printable byte = (unat byte \<in> set string_printable \<and> byte \<ge> 0x20)"

text \<open>
  \<open>dump_ntag\<close>: what the three serializers are called with gives, in call order, their
  file names and whether each gets to open its file; nothing for a short image.
\<close>

definition dump_ntag :: "image \<Rightarrow> NTAGData \<Rightarrow> py_error + (str \<times> bool) list" where
  "dump_ntag byte_array ntag =
     (if length (image_bytes byte_array) > 43 then
        (let filename_bytes = py_slice (image_bytes byte_array) 38 42;
             filename = concat (map (\<lambda>byte. if printable byte then [unat byte] else []) filename_bytes)
         in case (if filename = []
                  then (case uid ntag of
                          None \<Rightarrow> Inl TypeError
                        | Some u \<Rightarrow> Inr (concat (map format_02X u)))
                  else Inr filename) of
              Inl e \<Rightarrow> Inl e
            | Inr filename \<Rightarrow>
                Inr [save_raw byte_array filename, save_ndef byte_array filename,
                     save_flipper byte_array ntag filename])
      else Inr [])"

datatype write_ntag_result =
    NotWritten write_result
  | NotVerified verify_result
  | SuccessfullyWritten "(str \<times> bool) list"

definition write_ntag ::
  "PN532 \<Rightarrow> command list \<Rightarrow> str \<Rightarrow> NTAGData \<Rightarrow> (py_error + write_ntag_result) \<times> command list" where
  "write_ntag pn532 tr id_str ntag =
     (case uid ntag of
        None \<Rightarrow> (Inl TypeError, tr)
      | Some u \<Rightarrow>
          (let text = encode_faba_id id_str
           in case create_byte_array (Some text) ntag of
                Inl e \<Rightarrow> (Inl e, tr)
              | Inr byte_array \<Rightarrow>
                  (case write_blocks pn532 tr byte_array 4 11 ntag of
                     (Inl e, tr1) \<Rightarrow> (Inl e, tr1)
                   | (Inr w, tr1) \<Rightarrow>
                       if w = AllWritten then
                         (case verify_blocks pn532 tr1 byte_array 4 11 of
                            (v, tr2) \<Rightarrow>
                              if v = AllVerified then
                                (case dump_ntag (ListImage byte_array) ntag of
                                   Inl e \<Rightarrow> (Inl e, tr2)
                                 | Inr files \<Rightarrow> (Inr (SuccessfullyWritten files), tr2))
                              else (Inr (NotVerified v), tr2))
                       else (Inr (NotWritten w), tr1))))"

section \<open>Observations used in the statements\<close>

text \<open>
  What the read of page \<open>k\<close> answers during a verification that started at page
  \<open>start\<close> with the commands \<open>tr\<close> already issued and has read the pages before \<open>k\<close>.
\<close>

definition read_back :: "PN532 \<Rightarrow> command list \<Rightarrow> int \<Rightarrow> int \<Rightarrow> byte list option" where
  "read_back pn532 tr start k = fst (read_page pn532 (tr @ map ReadBlock [start..k - 1]) k)"

text \<open>The four bytes of the image that belong to page \<open>k\<close>: \<open>byte_array[k*4 : k*4+4]\<close>.\<close>

definition expected_page :: "byte list \<Rightarrow> int \<Rightarrow> byte list" where
  "expected_page byte_array k = py_slice byte_array (k * 4) (k * 4 + 4)"

text \<open>The rendering that \<open>verify_blocks\<close> logs and compares: \<open>" ".join(f"{byte:02X}" ...)\<close>.\<close>

definition hex_line :: "byte list \<Rightarrow> str" where
  "hex_line bs = join (py_str '' '') (map format_02X bs)"

text \<open>The page numbers of the write commands in a list of commands, in order.\<close>

definition written_pages :: "command list \<Rightarrow> int list" where
  "written_pages cmds = concat (map (\<lambda>c. case c of WriteBlock n d \<Rightarrow> [n] | _ \<Rightarrow> []) cmds)"

text \<open>A result that is a value or the exception UnicodeDecodeError, and no other exception.\<close>

definition only_decode_error :: "py_error + 'a \<Rightarrow> bool" where
  "only_decode_error r = (case r of Inl e \<Rightarrow> e = UnicodeDecodeError | Inr _ \<Rightarrow> True)"

text \<open>The store that holds an image page by page, as a reading pass fills it.\<close>

definition load_image :: "byte list \<Rightarrow> NTAGData" where
  "load_image byte_array =
     foldl (\<lambda>ntag k. add_page ntag (int k) (py_slice byte_array (int k * 4) (int k * 4 + 4)))
       NTAGData_init [0..<length byte_array div 4]"

section \<open>Concrete readers, tags and images\<close>

text \<open>
  A clone tag: six readable pages, capability byte 0x3E in page 3, and a driver that raises
  on page 6.
\<close>

definition clone_reader :: PN532 where
  "clone_reader =
     \<lparr>read_passive_target = (\<lambda>tr. Returned (Some [0x04, 0x74, 0x2F, 0xF1, 0x78, 0x00, 0x00])),
      ntag2xx_read_block = (\<lambda>tr page.
         if page < 3 then Returned (Some [0x04, 0x74, 0x2F, 0xD7])
         else if page = 3 then Returned (Some [0xE1, 0x10, 0x3E, 0x00])
         else if page < 6 then Returned (Some [0x00, 0x00, 0x00, 0x00])
         else Raised),
      ntag2xx_write_block = (\<lambda>tr page data. Returned True)\<rparr>"

text \<open>A tag that leaves the field after two pages: the read of page 2 returns \<open>None\<close>.\<close>

definition removed_reader :: PN532 where
  "removed_reader =
     \<lparr>read_passive_target = (\<lambda>tr. Returned (Some [0x04, 0x74, 0x2F, 0xF1, 0x78, 0x00, 0x00])),
      ntag2xx_read_block = (\<lambda>tr page.
         if page < 2 then Returned (Some [0x04, 0x74, 0x2F, 0xD7]) else Returned None),
      ntag2xx_write_block = (\<lambda>tr page data. Returned True)\<rparr>"

text \<open>Another tag lies on the reader: the poll returns a UID that is not the detected one.\<close>

definition swapped_reader :: PN532 where
  "swapped_reader =
     \<lparr>read_passive_target = (\<lambda>tr. Returned (Some [0x04, 0xA1, 0xB2, 0xC3, 0xD4, 0xE5, 0xF6])),
      ntag2xx_read_block = (\<lambda>tr page. Returned (Some [0x00, 0x00, 0x00, 0x00])),
      ntag2xx_write_block = (\<lambda>tr page data. Returned True)\<rparr>"

text \<open>
  A tag whose page 8 reads back as 11 22 33 00 and every other page as zeros, and an image
  that wants 11 22 33 44 in page 8 and zeros elsewhere.
\<close>

definition mismatch_reader :: PN532 where
  "mismatch_reader =
     \<lparr>read_passive_target = (\<lambda>tr. Returned (Some [0x04, 0x74, 0x2F, 0xF1, 0x78, 0x00, 0x00])),
      ntag2xx_read_block = (\<lambda>tr page.
         if page = 8 then Returned (Some [0x11, 0x22, 0x33, 0x00])
         else Returned (Some [0x00, 0x00, 0x00, 0x00])),
      ntag2xx_write_block = (\<lambda>tr page data. Returned True)\<rparr>"

definition mismatch_image :: "byte list" where
  "mismatch_image =
     [0x00, 0x00, 0x00, 0x00,
      0x00, 0x00, 0x00, 0x00,
      0x00, 0x00, 0x00, 0x00,
      0x00, 0x00, 0x00, 0x00,
      0x00, 0x00, 0x00, 0x00,
      0x00, 0x00, 0x00, 0x00,
      0x00, 0x00, 0x00, 0x00,
      0x00, 0x00, 0x00, 0x00,
      0x11, 0x22, 0x33, 0x44,
      0x00, 0x00, 0x00, 0x00,
      0x00, 0x00, 0x00, 0x00,
      0x00, 0x00, 0x00, 0x00]"

text \<open>
  The tag with UID 04 74 2F F1 78 00 00 as detection leaves it when only the first four
  pages are kept (NTAG213, 45 pages), and a reader that answers every read with the bytes
  last written to that page.
\<close>

definition tag213 :: NTAGData where
  "tag213 =
     \<lparr>pages = [(0, [0x04, 0x74, 0x2F, 0xD7]), (1, [0xF1, 0x78, 0x00, 0x00]),
               (2, [0x89, 0x48, 0x00, 0x00]), (3, [0xE1, 0x10, 0x12, 0x00])],
      uid = Some [0x04, 0x74, 0x2F, 0xF1, 0x78, 0x00, 0x00],
      type = py_str ''NTAG213'', size_ntag = 45, code = None\<rparr>"

definition echo_reader :: PN532 where
  "echo_reader =
     \<lparr>read_passive_target = (\<lambda>tr. Returned (Some [0x04, 0x74, 0x2F, 0xF1, 0x78, 0x00, 0x00])),
      ntag2xx_read_block = (\<lambda>tr page.
         case filter (\<lambda>c. case c of WriteBlock n d \<Rightarrow> n = page | _ \<Rightarrow> False) (rev tr) of
           WriteBlock n d # _ \<Rightarrow> Returned (Some d)
         | _ \<Rightarrow> Returned (Some [0x00, 0x00, 0x00, 0x00])),
      ntag2xx_write_block = (\<lambda>tr page data. Returned True)\<rparr>"

text \<open>
  A tag of 16 pages with a capability byte that no variant uses: detection records it as
  Unknown with the page count it has read. And a payload of sixteen times U+00E9.
\<close>

definition small_tag :: NTAGData where
  "small_tag =
     \<lparr>pages = [(0, [0x04, 0x74, 0x2F, 0xD7]), (1, [0xF1, 0x78, 0x00, 0x00]),
               (2, [0x89, 0x48, 0x00, 0x00]), (3, [0xE1, 0x10, 0x06, 0x00])],
      uid = Some [0x04, 0x74, 0x2F, 0xF1, 0x78, 0x00, 0x00],
      type = py_str ''Unknown'', size_ntag = 16, code = None\<rparr>"

definition accented_payload :: str where
  "accented_payload =
     [0xE9, 0xE9, 0xE9, 0xE9, 0xE9, 0xE9, 0xE9, 0xE9, 0xE9, 0xE9, 0xE9, 0xE9, 0xE9, 0xE9, 0xE9, 0xE9]"

text \<open>
  The identifier of the four Arabic-Indic digits U+0661 to U+0664 (one, two, three, four),
  which \<open>\d{4}\<close> matches.
\<close>

definition arabic_indic_1234 :: str where
  "arabic_indic_1234 = [0x661, 0x662, 0x663, 0x664]"

text \<open>An image of twelve pages whose bytes 38 to 41 are 31 00 32 33.\<close>

definition mixed_image :: "byte list" where
  "mixed_image =
     [0x00, 0x00, 0x00, 0x00, 0x00, 0x00, 0x00, 0x00, 0x00, 0x00, 0x00, 0x00,
      0x00, 0x00, 0x00, 0x00, 0x00, 0x00, 0x00, 0x00, 0x00, 0x00, 0x00, 0x00,
      0x00, 0x00, 0x00, 0x00, 0x00, 0x00, 0x00, 0x00, 0x00, 0x00, 0x00, 0x00,
      0x00, 0x00, 0x31, 0x00, 0x32, 0x33, 0x00, 0x00, 0x00, 0x00, 0x00, 0x00]"

text \<open>
  The first thirteen pages of the tag above after \<open>write_ntag\<close> has written the identifier
  1234, as a detection pass reads them.
\<close>

definition written_tag :: NTAGData where
  "written_tag =
     \<lparr>pages = [(0, [0x04, 0x74, 0x2F, 0xD7]), (1, [0xF1, 0x78, 0x00, 0x00]),
               (2, [0x89, 0x48, 0x00, 0x00]), (3, [0xE1, 0x10, 0x12, 0x00]),
               (4, [0x01, 0x03, 0xA0, 0x0C]), (5, [0x34, 0x03, 0x15, 0xD1]),
               (6, [0x01, 0x11, 0x54, 0x02]), (7, [0x65, 0x6E, 0x30, 0x32]),
               (8, [0x31, 0x39, 0x30, 0x35]), (9, [0x33, 0x30, 0x31, 0x32]),
               (10, [0x33, 0x34, 0x30, 0x30]), (11, [0xFE, 0x00, 0x00, 0x00]),
               (12, [0x00, 0x00, 0x00, 0x00])],
      uid = Some [0x04, 0x74, 0x2F, 0xF1, 0x78, 0x00, 0x00],
      type = py_str ''NTAG213'', size_ntag = 45, code = None\<rparr>"

text \<open>
  Two tags whose record in page 6 is not a text record (type field 0x55): one with binary
  payload bytes, one whose payload is the language code "en" and the text "hi".
\<close>

definition binary_tag :: NTAGData where
  "binary_tag =
     \<lparr>pages = [(0, [0x04, 0x74, 0x2F, 0xD7]), (1, [0xF1, 0x78, 0x00, 0x00]),
               (2, [0x89, 0x48, 0x00, 0x00]), (3, [0xE1, 0x10, 0x3E, 0x00]),
               (4, [0xA5, 0x00, 0x00, 0x00]), (5, [0x5A, 0x01, 0x02, 0x03]),
               (6, [0x01, 0x04, 0x55, 0x00]), (7, [0xFF, 0xD8, 0xFF, 0xE0])],
      uid = Some [0x04, 0x74, 0x2F, 0xF1, 0x78, 0x00, 0x00],
      type = py_str ''NTAG215'', size_ntag = 135, code = None\<rparr>"

definition other_record_tag :: NTAGData where
  "other_record_tag =
     \<lparr>pages = [(0, [0x04, 0x74, 0x2F, 0xD7]), (1, [0xF1, 0x78, 0x00, 0x00]),
               (2, [0x89, 0x48, 0x00, 0x00]), (3, [0xE1, 0x10, 0x12, 0x00]),
               (4, [0x01, 0x03, 0xA0, 0x0C]), (5, [0x34, 0x03, 0x09, 0xD1]),
               (6, [0x01, 0x05, 0x55, 0x02]), (7, [0x65, 0x6E, 0x68, 0x69]),
               (8, [0xFE, 0x00, 0x00, 0x00])],
      uid = Some [0x04, 0x74, 0x2F, 0xF1, 0x78, 0x00, 0x00],
      type = py_str ''NTAG213'', size_ntag = 45, code = None\<rparr>"

section \<open>Properties\<close>

subsection \<open>The page store\<close>

lemma map_of_dict_set: "map_of (dict_set kvs k v) = (map_of kvs)(k \<mapsto> v)"
  by (induction kvs) (auto simp: fun_eq_iff)

lemma read_page_ntag_add_page:
  "read_page_ntag (add_page ntag page data) k = (if k = page then Some data else read_page_ntag ntag k)"
  by (simp add: read_page_ntag_def add_page_def map_of_dict_set)

subsection \<open>Detection\<close>

text \<open>
  When the reading loop stops at page number \<open>page'\<close>, it has stored pages below
  \<open>page'\<close> only: every page from \<open>page'\<close> on is as it was before the loop.
\<close>

lemma detect_card_loop_frame_aux:
  assumes "detect_card_loop pn532 tr ntag page = Some y"
  shows "page \<le> fst y \<and> (\<forall>k\<ge>fst y. read_page_ntag (fst (snd y)) k = read_page_ntag ntag k)"
proof (rule detect_card_loop.raw_induct
    [where P = "\<lambda>pn532 tr ntag page y.
       page \<le> fst y \<and> (\<forall>k\<ge>fst y. read_page_ntag (fst (snd y)) k = read_page_ntag ntag k)",
     OF _ assms])
  fix loop pn532 tr ntag page y
  assume IH: "\<And>pn532 tr ntag page y. loop pn532 tr ntag page = Some y \<Longrightarrow>
           page \<le> fst y \<and> (\<forall>k\<ge>fst y. read_page_ntag (fst (snd y)) k = read_page_ntag ntag k)"
    and body: "(case read_page pn532 tr page of
                 (None, tr') \<Rightarrow> Some (page, ntag, tr')
               | (Some data, tr') \<Rightarrow>
                   if data = [] then Some (page, ntag, tr')
                   else loop pn532 tr' (add_page ntag page data) (page + 1)) = Some y"
  show "page \<le> fst y \<and> (\<forall>k\<ge>fst y. read_page_ntag (fst (snd y)) k = read_page_ntag ntag k)"
  proof (cases "read_page pn532 tr page")
    case (Pair data tr')
    show ?thesis
    proof (cases data)
      case None
      with Pair body show ?thesis by auto
    next
      case (Some d)
      show ?thesis
      proof (cases "d = []")
        case True
        with Some Pair body show ?thesis by auto
      next
        case False
        with Some Pair body
        have rec: "loop pn532 tr' (add_page ntag page d) (page + 1) = Some y"
          by auto
        from IH [OF rec] show ?thesis
          by (auto simp: read_page_ntag_add_page)
      qed
    qed
  qed
qed

lemma detect_card_loop_frame:
  assumes "detect_card_loop pn532 tr ntag page = Some (page', ntag', tr')"
  shows "page \<le> page' \<and> (\<forall>k\<ge>page'. read_page_ntag ntag' k = read_page_ntag ntag k)"
  using detect_card_loop_frame_aux [OF assms] by simp

text \<open>
  C1. Whenever a detection pass has read its pages and page 3 of the store holds four
  bytes, the variant and the page count that \<open>detect_card\<close> records are fixed by the
  capability byte (byte 2 of page 3): 0x12 gives NTAG203 with 42 pages when exactly 42
  pages were read and NTAG213 with 45 pages for every other count, 0x3E gives NTAG215 with
  135 pages, 0x6D gives NTAG216 with 231 pages, whatever the number of pages read; any
  other byte gives Unknown with the number of pages read.
\<close>

theorem detect_card_canonical:
  assumes "wait_for_card pn532 tr = Some (Inr u, tr1)"
    and "detect_card_loop pn532 tr1 (ntag\<lparr>uid := Some u\<rparr>) 0 = Some (page, ntag1, tr2)"
    and "read_page_ntag ntag1 3 = Some [b0, b1, cc, b3]"
  shows "detect_card pn532 tr ntag =
           Some (Inr (if cc = 0x12 then
                        (if page = 42 then ntag1\<lparr>type := py_str ''NTAG203'', size_ntag := 42\<rparr>
                         else ntag1\<lparr>type := py_str ''NTAG213'', size_ntag := 45\<rparr>)
                      else if cc = 0x3E then ntag1\<lparr>type := py_str ''NTAG215'', size_ntag := 135\<rparr>
                      else if cc = 0x6D then ntag1\<lparr>type := py_str ''NTAG216'', size_ntag := 231\<rparr>
                      else ntag1\<lparr>type := py_str ''Unknown'', size_ntag := page\<rparr>), tr2)"
  using assms by (simp add: detect_card_def subscript_def)

theorem detect_card_canonical_witness:
  "detect_card clone_reader [] NTAGData_init =
     Some (Inr \<lparr>pages = [(0, [0x04, 0x74, 0x2F, 0xD7]), (1, [0x04, 0x74, 0x2F, 0xD7]),
                         (2, [0x04, 0x74, 0x2F, 0xD7]), (3, [0xE1, 0x10, 0x3E, 0x00]),
                         (4, [0x00, 0x00, 0x00, 0x00]), (5, [0x00, 0x00, 0x00, 0x00])],
                uid = Some [0x04, 0x74, 0x2F, 0xF1, 0x78, 0x00, 0x00],
                type = py_str ''NTAG215'', size_ntag = 135, code = None\<rparr>,
           [ReadPassiveTarget, ReadBlock 0, ReadBlock 1, ReadBlock 2, ReadBlock 3,
            ReadBlock 4, ReadBlock 5, ReadBlock 6])"
proof -
  let ?u = "[0x04, 0x74, 0x2F, 0xF1, 0x78, 0x00, 0x00] :: byte list"
  let ?ntag1 = "\<lparr>pages = [(0, [0x04, 0x74, 0x2F, 0xD7]), (1, [0x04, 0x74, 0x2F, 0xD7]),
                         (2, [0x04, 0x74, 0x2F, 0xD7]), (3, [0xE1, 0x10, 0x3E, 0x00]),
                         (4, [0x00, 0x00, 0x00, 0x00]), (5, [0x00, 0x00, 0x00, 0x00 :: byte])],
                uid = Some ?u, type = py_str ''Unknown'', size_ntag = 0, code = None\<rparr>"
  have w: "wait_for_card clone_reader [] = Some (Inr ?u, [ReadPassiveTarget])"
    by (simp add: wait_for_card.simps clone_reader_def)
  have l: "detect_card_loop clone_reader [ReadPassiveTarget] (NTAGData_init\<lparr>uid := Some ?u\<rparr>) 0
             = Some (6, ?ntag1, [ReadPassiveTarget, ReadBlock 0, ReadBlock 1, ReadBlock 2,
                                 ReadBlock 3, ReadBlock 4, ReadBlock 5, ReadBlock 6])"
    by (simp add: detect_card_loop.simps clone_reader_def read_page_def add_page_def
        NTAGData_init_def)
  have p: "read_page_ntag ?ntag1 3 = Some [0xE1, 0x10, 0x3E, 0x00]"
    by (simp add: read_page_ntag_def)
  show ?thesis
    using detect_card_canonical [OF w l p] by simp
qed

text \<open>
  C10. Detection needs page 3. With a store that does not hold page 3 beforehand (a new
  NTAGData has no pages), a pass whose reading loop stops at page 3 or earlier ends with
  the TypeError of subscripting \<open>None\<close>; it does not classify the tag as Unknown. A pass
  that returns normally has read beyond page 3 and its store holds page 3.
\<close>

theorem detect_card_needs_page3:
  assumes "wait_for_card pn532 tr = Some (Inr u, tr1)"
    and "detect_card_loop pn532 tr1 (ntag\<lparr>uid := Some u\<rparr>) 0 = Some (page, ntag1, tr2)"
    and "read_page_ntag ntag 3 = None"
  shows "(page \<le> 3 \<longrightarrow> detect_card pn532 tr ntag = Some (Inl TypeError, tr2))
       \<and> (\<forall>ntag'. detect_card pn532 tr ntag = Some (Inr ntag', tr2)
             \<longrightarrow> 3 < page \<and> read_page_ntag ntag' 3 \<noteq> None)"
proof -
  have same: "read_page_ntag (ntag\<lparr>uid := Some u\<rparr>) 3 = None"
    using assms(3) by (simp add: read_page_ntag_def)
  have early: "read_page_ntag ntag1 3 = None" if "page \<le> 3"
    using detect_card_loop_frame [OF assms(2)] that same by simp
  have fails: "detect_card pn532 tr ntag = Some (Inl TypeError, tr2)" if "page \<le> 3"
    using assms(1,2) early [OF that] by (simp add: detect_card_def)
  have "3 < page \<and> read_page_ntag ntag' 3 \<noteq> None"
    if ok: "detect_card pn532 tr ntag = Some (Inr ntag', tr2)" for ntag'
  proof -
    have late: "3 < page"
      using fails ok by fastforce
    obtain page3 where p3: "read_page_ntag ntag1 3 = Some page3"
      using ok assms(1,2) by (cases "read_page_ntag ntag1 3") (auto simp: detect_card_def)
    have "pages ntag' = pages ntag1"
      using ok assms(1,2) p3
      by (auto simp: detect_card_def split: sum.splits if_splits)
    then show ?thesis
      using late p3 by (simp add: read_page_ntag_def)
  qed
  with fails show ?thesis by blast
qed

theorem detect_card_needs_page3_witness:
  "detect_card removed_reader [] NTAGData_init
     = Some (Inl TypeError, [ReadPassiveTarget, ReadBlock 0, ReadBlock 1, ReadBlock 2])"
proof -
  let ?u = "[0x04, 0x74, 0x2F, 0xF1, 0x78, 0x00, 0x00] :: byte list"
  let ?ntag1 = "\<lparr>pages = [(0, [0x04, 0x74, 0x2F, 0xD7]), (1, [0x04, 0x74, 0x2F, 0xD7 :: byte])],
                uid = Some ?u, type = py_str ''Unknown'', size_ntag = 0, code = None\<rparr>"
  have w: "wait_for_card removed_reader [] = Some (Inr ?u, [ReadPassiveTarget])"
    by (simp add: wait_for_card.simps removed_reader_def)
  have l: "detect_card_loop removed_reader [ReadPassiveTarget] (NTAGData_init\<lparr>uid := Some ?u\<rparr>) 0
             = Some (2, ?ntag1, [ReadPassiveTarget, ReadBlock 0, ReadBlock 1, ReadBlock 2])"
    by (simp add: detect_card_loop.simps removed_reader_def read_page_def add_page_def
        NTAGData_init_def)
  have p: "read_page_ntag NTAGData_init 3 = None"
    by (simp add: read_page_ntag_def NTAGData_init_def)
  show ?thesis
    using detect_card_needs_page3 [OF w l p] by simp
qed

subsection \<open>Hexadecimal rendering\<close>

lemma hex_value_hex_upper: "d < 16 \<Longrightarrow> hex_value (of_char (hex_upper d)) = Some d"
proof -
  have "\<forall>d<16. hex_value (of_char (hex_upper d)) = Some d"
    by (simp add: hex_upper_def hex_value_def All_less_Suc numeral_eq_Suc del: of_char_of)
  then show "d < 16 \<Longrightarrow> hex_value (of_char (hex_upper d)) = Some d" by blast
qed

lemma hex_value_hex_lower: "d < 16 \<Longrightarrow> hex_value (of_char (hex_lower d)) = Some d"
proof -
  have "\<forall>d<16. hex_value (of_char (hex_lower d)) = Some d"
    by (simp add: hex_lower_def hex_value_def All_less_Suc numeral_eq_Suc)
  then show "d < 16 \<Longrightarrow> hex_value (of_char (hex_lower d)) = Some d" by blast
qed

lemma unat_byte_div16: "unat (b :: byte) div 16 < 16"
proof -
  have "unat b < 256" using unsigned_less [of b, where ?'a = nat] by simp
  then show ?thesis by simp
qed

lemma unat_byte_less: "unat (b :: byte) < 256"
  using unsigned_less [of b, where ?'a = nat] by simp

lemma format_02X_inj: "format_02X a = format_02X b \<Longrightarrow> a = b"
proof -
  assume eq: "format_02X a = format_02X b"
  then have h: "(of_char (hex_upper (unat a div 16)) :: nat) = of_char (hex_upper (unat b div 16))"
    and l: "(of_char (hex_upper (unat a mod 16)) :: nat) = of_char (hex_upper (unat b mod 16))"
    by (simp_all add: format_02X_def py_str_def)
  from arg_cong [OF h, of hex_value] have "unat a div 16 = unat b div 16"
    by (simp add: hex_value_hex_upper unat_byte_div16)
  moreover from arg_cong [OF l, of hex_value] have "unat a mod 16 = unat b mod 16"
    by (simp add: hex_value_hex_upper)
  ultimately have "unat a = unat b"
    by (metis div_mult_mod_eq)
  then show "a = b" by (simp add: word_unat_eq_iff)
qed

lemma hex_upper_not_space: "d < 16 \<Longrightarrow> (of_char (hex_upper d) :: nat) \<noteq> 32"
proof -
  have "\<forall>d<16. (of_char (hex_upper d) :: nat) \<noteq> 32"
    by (simp add: hex_upper_def All_less_Suc numeral_eq_Suc)
  then show "d < 16 \<Longrightarrow> (of_char (hex_upper d) :: nat) \<noteq> 32" by blast
qed

lemma format_02X_shape: "\<exists>x y. format_02X b = [x, y] \<and> x \<noteq> 32 \<and> y \<noteq> 32"
  by (simp add: format_02X_def py_str_def hex_upper_not_space unat_byte_div16)

text \<open>The space-separated hex rendering of a byte sequence determines the sequence.\<close>

lemma join_format_02X_inj:
  "join (py_str '' '') (map format_02X xs) = join (py_str '' '') (map format_02X ys) \<Longrightarrow> xs = ys"
proof (induction xs arbitrary: ys)
  case Nil
  show ?case
  proof (cases ys)
    case Nil
    then show ?thesis by simp
  next
    case (Cons y ys')
    obtain a b where "format_02X y = [a, b]" using format_02X_shape by blast
    with Nil Cons show ?thesis by (cases ys') (simp_all add: py_str_def)
  qed
next
  case (Cons x xs')
  obtain a b where fx: "format_02X x = [a, b]" and nsx: "a \<noteq> 32" "b \<noteq> 32"
    using format_02X_shape by blast
  show ?case
  proof (cases ys)
    case Nil
    with Cons.prems fx show ?thesis by (cases xs') (simp_all add: py_str_def)
  next
    case ys: (Cons y ys')
    obtain c d where fy: "format_02X y = [c, d]" using format_02X_shape by blast
    have hd_eq: "format_02X x = format_02X y"
      using Cons.prems fx fy ys by (cases xs'; cases ys') (simp_all add: py_str_def)
    then have xy: "x = y" by (rule format_02X_inj)
    have "join (py_str '' '') (map format_02X xs') = join (py_str '' '') (map format_02X ys')"
    proof (cases xs')
      case Nil
      show ?thesis
      proof (cases ys')
        case Nil
        with \<open>xs' = []\<close> show ?thesis by simp
      next
        case (Cons z zs)
        with Cons.prems \<open>xs' = []\<close> fx fy ys show ?thesis by (simp add: py_str_def)
      qed
    next
      case xs'': (Cons z zs)
      show ?thesis
      proof (cases ys')
        case Nil
        with Cons.prems xs'' fx fy ys show ?thesis by (simp add: py_str_def)
      next
        case (Cons w ws)
        with Cons.prems xs'' fx fy ys show ?thesis by (simp add: py_str_def)
      qed
    qed
    then have "xs' = ys'" by (rule Cons.IH)
    with xy ys show ?thesis by simp
  qed
qed

subsection \<open>Verification\<close>

lemma read_page_snd: "snd (read_page pn532 tr k) = tr @ [ReadBlock k]"
  by (simp add: read_page_def)

lemma read_back_first: "read_back pn532 tr i i = fst (read_page pn532 tr i)"
  by (simp add: read_back_def)

lemma read_back_shift:
  "i < k \<Longrightarrow> read_back pn532 (tr @ [ReadBlock i]) (i + 1) k = read_back pn532 tr i k"
proof -
  assume "i < k"
  then have "[i..k - 1] = i # [i + 1..k - 1]"
    by (simp add: upto_rec1)
  then show ?thesis by (simp add: read_back_def)
qed

lemma verify_blocks_loop_cases:
  "verify_blocks_loop pn532 tr byte_array [i..j] = (r, tr') \<Longrightarrow>
     (r = AllVerified \<longrightarrow>
        (\<forall>k\<in>{i..j}. read_back pn532 tr i k = Some (expected_page byte_array k))
        \<and> tr' = tr @ map ReadBlock [i..j])
   \<and> (\<forall>p. r = FailedToReadPage p \<longrightarrow>
        i \<le> p \<and> p \<le> j
        \<and> (\<forall>k\<in>{i..<p}. read_back pn532 tr i k = Some (expected_page byte_array k))
        \<and> read_back pn532 tr i p = None
        \<and> tr' = tr @ map ReadBlock [i..p])
   \<and> (\<forall>p e a. r = MismatchAtPage p e a \<longrightarrow>
        i \<le> p \<and> p \<le> j
        \<and> (\<forall>k\<in>{i..<p}. read_back pn532 tr i k = Some (expected_page byte_array k))
        \<and> (\<exists>d. read_back pn532 tr i p = Some d \<and> d \<noteq> expected_page byte_array p
                \<and> e = hex_line (expected_page byte_array p) \<and> a = hex_line d)
        \<and> tr' = tr @ map ReadBlock [i..p])"
proof (induction i j arbitrary: tr rule: upto.induct)
  case (1 i j)
  show ?case
  proof (cases "i \<le> j")
    case False
    with 1(2) show ?thesis by simp
  next
    case True
    then have range: "[i..j] = i # [i + 1..j]" by (simp add: upto_rec1)
    have one: "[i..i] = [i]" by simp
    have mem: "k \<in> {i..j} \<longleftrightarrow> k = i \<or> k \<in> {i + 1..j}" for k
      using True by auto
    show ?thesis
    proof (cases "fst (read_page pn532 tr i)")
      case None
      then have "read_page pn532 tr i = (None, tr @ [ReadBlock i])"
        by (simp add: read_page_def)
      with 1(2) range have "r = FailedToReadPage i" "tr' = tr @ [ReadBlock i]"
        by simp_all
      with None True show ?thesis
        by (simp add: read_back_first one)
    next
      case (Some d)
      then have rp: "read_page pn532 tr i = (Some d, tr @ [ReadBlock i])"
        by (simp add: read_page_def)
      show ?thesis
      proof (cases "d = expected_page byte_array i")
        case False
        then have "hex_line (expected_page byte_array i) \<noteq> hex_line d"
          unfolding hex_line_def using join_format_02X_inj by blast
        with 1(2) range rp
        have "r = MismatchAtPage i (hex_line (expected_page byte_array i)) (hex_line d)"
          "tr' = tr @ [ReadBlock i]"
          by (simp_all add: hex_line_def expected_page_def Let_def)
        with Some False True show ?thesis
          by (simp add: read_back_first one)
      next
        case same: True
        with 1(2) range rp
        have rec: "verify_blocks_loop pn532 (tr @ [ReadBlock i]) byte_array [i + 1..j] = (r, tr')"
          by (simp add: expected_page_def Let_def)
        note IH = 1(1) [OF True rec]
        have first: "read_back pn532 tr i i = Some (expected_page byte_array i)"
          using Some same by (simp add: read_back_first)
        have shift: "read_back pn532 (tr @ [ReadBlock i]) (i + 1) k = read_back pn532 tr i k"
          if "i + 1 \<le> k" for k
          using that by (simp add: read_back_shift)
        have tr_shift: "(tr @ [ReadBlock i]) @ map ReadBlock [i + 1..p] = tr @ map ReadBlock [i..p]"
          if "i + 1 \<le> p" for p
          using that by (simp add: upto_rec1 [of i p])
        have tr_all: "(tr @ [ReadBlock i]) @ map ReadBlock [i + 1..j] = tr @ map ReadBlock [i..j]"
          using range by simp
        have prefix_ok: "\<forall>k\<in>{i..<p}. read_back pn532 tr i k = Some (expected_page byte_array k)"
          if "\<forall>k\<in>{i + 1..<p}. read_back pn532 (tr @ [ReadBlock i]) (i + 1) k
                 = Some (expected_page byte_array k)" for p
        proof
          fix k assume "k \<in> {i..<p}"
          then consider "k = i" | "k \<in> {i + 1..<p}" by force
          then show "read_back pn532 tr i k = Some (expected_page byte_array k)"
          proof cases
            case 1 then show ?thesis using first by simp
          next
            case 2
            then have "i + 1 \<le> k" by simp
            with that 2 shift show ?thesis by metis
          qed
        qed
        have all_ok: "\<forall>k\<in>{i..j}. read_back pn532 tr i k = Some (expected_page byte_array k)"
          if "\<forall>k\<in>{i + 1..j}. read_back pn532 (tr @ [ReadBlock i]) (i + 1) k
                 = Some (expected_page byte_array k)"
        proof
          fix k assume "k \<in> {i..j}"
          then consider "k = i" | "k \<in> {i + 1..j}" by force
          then show "read_back pn532 tr i k = Some (expected_page byte_array k)"
          proof cases
            case 1 then show ?thesis using first by simp
          next
            case 2
            then have "i + 1 \<le> k" by simp
            with that 2 shift show ?thesis by metis
          qed
        qed
        show ?thesis
        proof (intro conjI allI impI)
          assume "r = AllVerified"
          with IH show "\<forall>k\<in>{i..j}. read_back pn532 tr i k = Some (expected_page byte_array k)"
            using all_ok by blast
        next
          assume "r = AllVerified"
          with IH show "tr' = tr @ map ReadBlock [i..j]"
            using tr_all by simp
        next
          fix p assume r: "r = FailedToReadPage p"
          with IH have b: "i + 1 \<le> p" "p \<le> j"
            and pre: "\<forall>k\<in>{i + 1..<p}. read_back pn532 (tr @ [ReadBlock i]) (i + 1) k
                 = Some (expected_page byte_array k)"
            and bad: "read_back pn532 (tr @ [ReadBlock i]) (i + 1) p = None"
            and t: "tr' = (tr @ [ReadBlock i]) @ map ReadBlock [i + 1..p]"
            by blast+
          show "i \<le> p" using b by simp
          show "p \<le> j" using b by simp
          show "\<forall>k\<in>{i..<p}. read_back pn532 tr i k = Some (expected_page byte_array k)"
            using prefix_ok [OF pre] .
          show "read_back pn532 tr i p = None" using bad shift [OF b(1)] by simp
          show "tr' = tr @ map ReadBlock [i..p]" using t tr_shift [OF b(1)] by simp
        next
          fix p e a assume r: "r = MismatchAtPage p e a"
          with IH have b: "i + 1 \<le> p" "p \<le> j"
            and pre: "\<forall>k\<in>{i + 1..<p}. read_back pn532 (tr @ [ReadBlock i]) (i + 1) k
                 = Some (expected_page byte_array k)"
            and bad: "\<exists>d. read_back pn532 (tr @ [ReadBlock i]) (i + 1) p = Some d
                \<and> d \<noteq> expected_page byte_array p
                \<and> e = hex_line (expected_page byte_array p) \<and> a = hex_line d"
            and t: "tr' = (tr @ [ReadBlock i]) @ map ReadBlock [i + 1..p]"
            by blast+
          show "i \<le> p" using b by simp
          show "p \<le> j" using b by simp
          show "\<forall>k\<in>{i..<p}. read_back pn532 tr i k = Some (expected_page byte_array k)"
            using prefix_ok [OF pre] .
          show "\<exists>d. read_back pn532 tr i p = Some d \<and> d \<noteq> expected_page byte_array p
                \<and> e = hex_line (expected_page byte_array p) \<and> a = hex_line d"
            using bad shift [OF b(1)] by simp
          show "tr' = tr @ map ReadBlock [i..p]" using t tr_shift [OF b(1)] by simp
        qed
      qed
    qed
  qed
qed

lemma verify_loop_ok:
  assumes "verify_blocks_loop pn532 tr byte_array [i..j] = (AllVerified, tr')"
  shows "\<forall>k\<in>{i..j}. read_back pn532 tr i k = Some (expected_page byte_array k)"
    and "tr' = tr @ map ReadBlock [i..j]"
  using verify_blocks_loop_cases [OF assms] by simp_all

lemma verify_loop_failed:
  assumes "verify_blocks_loop pn532 tr byte_array [i..j] = (FailedToReadPage p, tr')"
  shows "i \<le> p" and "p \<le> j"
    and "\<forall>k\<in>{i..<p}. read_back pn532 tr i k = Some (expected_page byte_array k)"
    and "read_back pn532 tr i p = None"
    and "tr' = tr @ map ReadBlock [i..p]"
  using verify_blocks_loop_cases [OF assms] by simp_all

lemma verify_loop_mismatch:
  assumes "verify_blocks_loop pn532 tr byte_array [i..j] = (MismatchAtPage p e a, tr')"
  shows "i \<le> p" and "p \<le> j"
    and "\<forall>k\<in>{i..<p}. read_back pn532 tr i k = Some (expected_page byte_array k)"
    and "\<exists>d. read_back pn532 tr i p = Some d \<and> d \<noteq> expected_page byte_array p
                \<and> e = hex_line (expected_page byte_array p) \<and> a = hex_line d"
    and "tr' = tr @ map ReadBlock [i..p]"
  using verify_blocks_loop_cases [OF assms] by simp_all

text \<open>The page at which a verification stops is the first page that does not read back as expected.\<close>

lemma verify_loop_stops_at_first_bad:
  assumes res: "verify_blocks_loop pn532 tr byte_array [i..j] = (r, tr')"
    and p: "i \<le> p" "p \<le> j"
    and pre: "\<forall>k\<in>{i..<p}. read_back pn532 tr i k = Some (expected_page byte_array k)"
    and bad: "read_back pn532 tr i p \<noteq> Some (expected_page byte_array p)"
  shows "r \<noteq> AllVerified"
    and "r = FailedToReadPage q \<Longrightarrow> q = p"
    and "r = MismatchAtPage q e a \<Longrightarrow> q = p"
proof -
  show "r \<noteq> AllVerified"
  proof
    assume "r = AllVerified"
    with res have "\<forall>k\<in>{i..j}. read_back pn532 tr i k = Some (expected_page byte_array k)"
      using verify_loop_ok(1) by blast
    moreover have "p \<in> {i..j}" using p by simp
    ultimately show False using bad by blast
  qed
  have uniq: "q = p"
    if q: "i \<le> q" "q \<le> j"
      and qpre: "\<forall>k\<in>{i..<q}. read_back pn532 tr i k = Some (expected_page byte_array k)"
      and qbad: "read_back pn532 tr i q \<noteq> Some (expected_page byte_array q)" for q
  proof (rule ccontr)
    assume "q \<noteq> p"
    then consider "q < p" | "p < q" by linarith
    then show False
    proof cases
      case 1
      then have "q \<in> {i..<p}" using q by simp
      with pre qbad show ?thesis by blast
    next
      case 2
      then have "p \<in> {i..<q}" using p by simp
      with qpre bad show ?thesis by blast
    qed
  qed
  show "q = p" if "r = FailedToReadPage q"
  proof -
    from that res have l: "verify_blocks_loop pn532 tr byte_array [i..j] = (FailedToReadPage q, tr')"
      by simp
    have "read_back pn532 tr i q \<noteq> Some (expected_page byte_array q)"
      using verify_loop_failed(4) [OF l] by simp
    then show ?thesis
      using uniq verify_loop_failed(1,2,3) [OF l] by blast
  qed
  show "q = p" if "r = MismatchAtPage q e a"
  proof -
    from that res have l: "verify_blocks_loop pn532 tr byte_array [i..j] = (MismatchAtPage q e a, tr')"
      by simp
    have "read_back pn532 tr i q \<noteq> Some (expected_page byte_array q)"
      using verify_loop_mismatch(4) [OF l] by auto
    then show ?thesis
      using uniq verify_loop_mismatch(1,2,3) [OF l] by blast
  qed
qed

text \<open>
  C6. \<open>verify_blocks\<close> reads the pages \<open>start..end\<close> back in ascending order and compares
  each with the bytes of the image. It returns \<open>True\<close> exactly when every page of the range
  reads back equal to the image. At the first page that reads back different bytes it
  stops with the mismatch message for that page, having read the pages from \<open>start\<close> up to
  that page and none after it; at the first page that cannot be read it stops with the
  read-failure message for that page in the same way. (\<open>read_back\<close> is what the read of
  page \<open>k\<close> answers once the pages before it have been read.)
\<close>

theorem verify_blocks_first_mismatch:
  "(fst (verify_blocks pn532 tr byte_array start end) = AllVerified
      \<longleftrightarrow> (\<forall>k\<in>{start..end}. read_back pn532 tr start k = Some (expected_page byte_array k)))
   \<and> (\<forall>p d. start \<le> p \<and> p \<le> end
          \<and> (\<forall>k\<in>{start..<p}. read_back pn532 tr start k = Some (expected_page byte_array k))
          \<and> read_back pn532 tr start p = Some d \<and> d \<noteq> expected_page byte_array p
        \<longrightarrow> verify_blocks pn532 tr byte_array start end
              = (MismatchAtPage p (hex_line (expected_page byte_array p)) (hex_line d),
                 tr @ map ReadBlock [start..p]))
   \<and> (\<forall>p. start \<le> p \<and> p \<le> end
          \<and> (\<forall>k\<in>{start..<p}. read_back pn532 tr start k = Some (expected_page byte_array k))
          \<and> read_back pn532 tr start p = None
        \<longrightarrow> verify_blocks pn532 tr byte_array start end
              = (FailedToReadPage p, tr @ map ReadBlock [start..p]))"
proof -
  obtain r tr' where res: "verify_blocks_loop pn532 tr byte_array [start..end] = (r, tr')"
    by (cases "verify_blocks_loop pn532 tr byte_array [start..end]")
  let ?ok = "\<lambda>k. read_back pn532 tr start k = Some (expected_page byte_array k)"
  have part1: "fst (verify_blocks pn532 tr byte_array start end) = AllVerified \<longleftrightarrow> (\<forall>k\<in>{start..end}. ?ok k)"
  proof
    assume "fst (verify_blocks pn532 tr byte_array start end) = AllVerified"
    then have "verify_blocks_loop pn532 tr byte_array [start..end] = (AllVerified, tr')"
      using res by (simp add: verify_blocks_def)
    then show "\<forall>k\<in>{start..end}. ?ok k" by (rule verify_loop_ok(1))
  next
    assume all: "\<forall>k\<in>{start..end}. ?ok k"
    have "r = AllVerified"
    proof (cases r)
      case AllVerified
      then show ?thesis .
    next
      case (FailedToReadPage q)
      with res have l: "verify_blocks_loop pn532 tr byte_array [start..end] = (FailedToReadPage q, tr')"
        by simp
      have "q \<in> {start..end}" using verify_loop_failed(1,2) [OF l] by simp
      with all have "?ok q" by blast
      with verify_loop_failed(4) [OF l] show ?thesis by simp
    next
      case (MismatchAtPage q e a)
      with res have l: "verify_blocks_loop pn532 tr byte_array [start..end] = (MismatchAtPage q e a, tr')"
        by simp
      have "q \<in> {start..end}" using verify_loop_mismatch(1,2) [OF l] by simp
      with all have "?ok q" by blast
      with verify_loop_mismatch(4) [OF l] show ?thesis by auto
    qed
    then show "fst (verify_blocks pn532 tr byte_array start end) = AllVerified"
      using res by (simp add: verify_blocks_def)
  qed
  have part2: "verify_blocks pn532 tr byte_array start end
              = (MismatchAtPage p (hex_line (expected_page byte_array p)) (hex_line d),
                 tr @ map ReadBlock [start..p])"
    if p: "start \<le> p" "p \<le> end" and pre: "\<forall>k\<in>{start..<p}. ?ok k"
      and rd: "read_back pn532 tr start p = Some d" and ne: "d \<noteq> expected_page byte_array p" for p d
  proof -
    have bad: "read_back pn532 tr start p \<noteq> Some (expected_page byte_array p)" using rd ne by simp
    note F = verify_loop_stops_at_first_bad [OF res p pre bad]
    show ?thesis
    proof (cases r)
      case AllVerified
      with F(1) show ?thesis by simp
    next
      case (FailedToReadPage q)
      with F(2) have "q = p" by simp
      with FailedToReadPage res
      have l: "verify_blocks_loop pn532 tr byte_array [start..end] = (FailedToReadPage p, tr')"
        by simp
      from verify_loop_failed(4) [OF l] rd show ?thesis by simp
    next
      case (MismatchAtPage q e a)
      with F(3) have "q = p" by simp
      with MismatchAtPage res
      have l: "verify_blocks_loop pn532 tr byte_array [start..end] = (MismatchAtPage p e a, tr')"
        by simp
      from verify_loop_mismatch(4,5) [OF l] rd l show ?thesis
        by (auto simp: verify_blocks_def)
    qed
  qed
  have part3: "verify_blocks pn532 tr byte_array start end
              = (FailedToReadPage p, tr @ map ReadBlock [start..p])"
    if p: "start \<le> p" "p \<le> end" and pre: "\<forall>k\<in>{start..<p}. ?ok k"
      and rd: "read_back pn532 tr start p = None" for p
  proof -
    have bad: "read_back pn532 tr start p \<noteq> Some (expected_page byte_array p)" using rd by simp
    note F = verify_loop_stops_at_first_bad [OF res p pre bad]
    show ?thesis
    proof (cases r)
      case AllVerified
      with F(1) show ?thesis by simp
    next
      case (FailedToReadPage q)
      with F(2) have "q = p" by simp
      with FailedToReadPage res
      have l: "verify_blocks_loop pn532 tr byte_array [start..end] = (FailedToReadPage p, tr')"
        by simp
      from verify_loop_failed(5) [OF l] l show ?thesis
        by (simp add: verify_blocks_def)
    next
      case (MismatchAtPage q e a)
      with F(3) have "q = p" by simp
      with MismatchAtPage res
      have l: "verify_blocks_loop pn532 tr byte_array [start..end] = (MismatchAtPage p e a, tr')"
        by simp
      from verify_loop_mismatch(4) [OF l] rd show ?thesis by auto
    qed
  qed
  show ?thesis
  proof (intro conjI allI impI)
    show "fst (verify_blocks pn532 tr byte_array start end) = AllVerified \<longleftrightarrow> (\<forall>k\<in>{start..end}. ?ok k)"
      by (rule part1)
  next
    fix p d
    assume "start \<le> p \<and> p \<le> end \<and> (\<forall>k\<in>{start..<p}. ?ok k)
          \<and> read_back pn532 tr start p = Some d \<and> d \<noteq> expected_page byte_array p"
    then show "verify_blocks pn532 tr byte_array start end
              = (MismatchAtPage p (hex_line (expected_page byte_array p)) (hex_line d),
                 tr @ map ReadBlock [start..p])"
      using part2 by blast
  next
    fix p
    assume "start \<le> p \<and> p \<le> end \<and> (\<forall>k\<in>{start..<p}. ?ok k)
          \<and> read_back pn532 tr start p = None"
    then show "verify_blocks pn532 tr byte_array start end
              = (FailedToReadPage p, tr @ map ReadBlock [start..p])"
      using part3 by blast
  qed
qed

theorem verify_blocks_first_mismatch_witness:
  "verify_blocks mismatch_reader [] mismatch_image 4 11
     = (MismatchAtPage 8 (py_str ''11 22 33 44'') (py_str ''11 22 33 00''),
        [ReadBlock 4, ReadBlock 5, ReadBlock 6, ReadBlock 7, ReadBlock 8])"
proof -
  have rb: "read_back mismatch_reader [] 4 k
              = (if k = 8 then Some [0x11, 0x22, 0x33, 0x00] else Some [0x00, 0x00, 0x00, 0x00])" for k
    by (simp add: read_back_def read_page_def mismatch_reader_def)
  have range: "{4..<8::int} = {4, 5, 6, 7}" by auto
  have pre: "\<forall>k\<in>{4..<8}. read_back mismatch_reader [] 4 k = Some (expected_page mismatch_image k)"
    unfolding range by (simp add: rb expected_page_def py_slice_def mismatch_image_def)
  have ne: "[0x11, 0x22, 0x33, 0x00] \<noteq> expected_page mismatch_image 8"
    by (simp add: expected_page_def py_slice_def mismatch_image_def)
  have e: "hex_line (expected_page mismatch_image 8) = py_str ''11 22 33 44''"
    by (simp add: expected_page_def py_slice_def mismatch_image_def hex_line_def format_02X_def
        hex_upper_def py_str_def)
  have a: "hex_line [0x11, 0x22, 0x33, 0x00] = py_str ''11 22 33 00''"
    by (simp add: hex_line_def format_02X_def hex_upper_def py_str_def)
  have t: "map ReadBlock [4..8] = [ReadBlock 4, ReadBlock 5, ReadBlock 6, ReadBlock 7, ReadBlock 8]"
    by (simp add: upto_rec1)
  from verify_blocks_first_mismatch [of mismatch_reader "[]" mismatch_image 4 11,
      THEN conjunct2, THEN conjunct1, rule_format, of 8 "[0x11, 0x22, 0x33, 0x00]"]
  have "verify_blocks mismatch_reader [] mismatch_image 4 11
     = (MismatchAtPage 8 (hex_line (expected_page mismatch_image 8)) (hex_line [0x11, 0x22, 0x33, 0x00]),
        [] @ map ReadBlock [4..8])"
    using pre ne rb by simp
  then show ?thesis
    by (simp add: e a t)
qed

subsection \<open>The layout\<close>

lemma utf8_encode_ascii: "\<forall>c\<in>set s. c < 0x80 \<Longrightarrow> utf8_encode s = Inr (map of_nat s)"
  by (induction s) (simp_all add: utf8_encode_char_def)

lemma int_16_hex_lower:
  "int_16 (py_str [hex_lower (unat (b :: byte) div 16), hex_lower (unat b mod 16)]) = Some (unat b)"
  by (simp add: int_16_def py_str_def hex_value_hex_lower unat_byte_div16)

lemma slice_middle:
  "length m = k \<Longrightarrow> py_slice (pre @ m @ post) (int (length pre)) (int (length pre) + int k) = m"
  by (simp add: py_slice_def)

lemma slice_prefix:
  "0 \<le> i \<Longrightarrow> i \<le> j \<Longrightarrow> j \<le> int (length A) \<Longrightarrow> py_slice (A @ B) i j = take (nat (j - i)) (drop (nat i) A)"
  by (simp add: py_slice_def min_def)

lemma length_bytes_hex: "length (bytes_hex bs) = 2 * length bs"
  by (induction bs) (simp_all add: bytes_hex_def py_str_def)

lemma hex_pairs_bytes_hex_aux:
  "hex_pairs (pre @ bytes_hex bs) (map (\<lambda>k. int (length pre) + 2 * int k) [0..<length bs]) = Inr bs"
proof (induction bs arbitrary: pre)
  case Nil
  then show ?case by simp
next
  case (Cons b bs)
  let ?hb = "py_str [hex_lower (unat b div 16), hex_lower (unat b mod 16)]"
  have split: "bytes_hex (b # bs) = ?hb @ bytes_hex bs"
    by (simp add: bytes_hex_def)
  have len: "length ?hb = 2" by (simp add: py_str_def)
  have idx: "[0..<length (b # bs)] = 0 # map Suc [0..<length bs]"
    by (simp add: upt_conv_Cons map_Suc_upt del: upt_Suc)
  have first: "py_slice (pre @ ?hb @ bytes_hex bs) (int (length pre)) (int (length pre) + 2) = ?hb"
    using slice_middle [OF len, of pre "bytes_hex bs"] by simp
  have rest: "hex_pairs ((pre @ ?hb) @ bytes_hex bs)
                (map (\<lambda>k. int (length (pre @ ?hb)) + 2 * int k) [0..<length bs]) = Inr bs"
    by (rule Cons.IH)
  have shift: "map ((\<lambda>k. int (length pre) + 2 * int k) \<circ> Suc) [0..<length bs]
             = map (\<lambda>k. int (length (pre @ ?hb)) + 2 * int k) [0..<length bs]"
    by (simp add: len)
  show ?case
    unfolding split idx
    using rest first
    by (simp add: shift int_16_hex_lower del: upt_Suc)
qed

text \<open>
  Rendering the payload bytes as hexadecimal and reading the digit pairs back gives the
  bytes again, so pages 7 to 10 of the image are the UTF-8 bytes of the payload string.
\<close>

lemma hex_pairs_bytes_hex:
  "hex_pairs (bytes_hex bs) (range_step2 (length (bytes_hex bs))) = Inr bs"
  using hex_pairs_bytes_hex_aux [of "[]" bs]
  by (simp add: range_step2_def length_bytes_hex)

lemma length_extend_pages: "length (extend_pages ntag ks) = 4 * length ks"
  by (induction ks) (auto simp: list_mul_def split: option.splits)

lemma concat_replicate_replicate: "concat (replicate n (replicate m x)) = replicate (n * m) x"
  by (induction n) (simp_all add: replicate_add)

lemma list_mul_single: "list_mul [x] k = replicate (nat k) x"
proof -
  have "concat (replicate n [x]) = replicate n x" for n
    by (induction n) simp_all
  then show ?thesis by (simp add: list_mul_def)
qed

lemma filler_replicate: "list_mul (list_mul [x] k) 4 = replicate (4 * nat k) x"
  by (simp add: list_mul_single) (simp add: list_mul_def concat_replicate_replicate)

lemma length_filler: "length (list_mul (list_mul [0x00 :: byte] k) 4) = 4 * nat k"
  by (simp add: list_mul_def length_concat sum_list_replicate)

lemma create_byte_array_payload:
  assumes "s \<noteq> []" and "utf8_encode s = Inr bs"
  shows "create_byte_array (Some s) ntag =
           Inr (extend_pages ntag [0, 1, 2, 3]
                @ [0x01, 0x03, (case map_of size_to_mlen (size_ntag ntag) of Some m \<Rightarrow> m | None \<Rightarrow> 0xA0), 0x0C]
                @ [0x34, 0x03, 0x15, 0xD1] @ [0x01, 0x11, 0x54, 0x02] @ bs @ [0xFE, 0x00, 0x00, 0x00]
                @ list_mul (list_mul [0x00] (size_ntag ntag - 17)) 4 @ last5)"
  using assms by (simp add: create_byte_array_def hex_pairs_bytes_hex Let_def)

lemma create_byte_array_stored:
  assumes "input_str = None \<or> input_str = Some []"
  shows "create_byte_array input_str ntag =
           Inr (extend_pages ntag [0, 1, 2, 3]
                @ [0x01, 0x03, (case map_of size_to_mlen (size_ntag ntag) of Some m \<Rightarrow> m | None \<Rightarrow> 0xA0), 0x0C]
                @ [0x34, 0x03, 0x15, 0xD1] @ [0x01, 0x11, 0x54, 0x02]
                @ extend_pages ntag [7, 8, 9, 10] @ [0xFE, 0x00, 0x00, 0x00]
                @ list_mul (list_mul [0x00] (size_ntag ntag - 17)) 4 @ last5)"
  using assms by (auto simp: create_byte_array_def Let_def)

lemma image_1234:
  "create_byte_array (Some (encode_faba_id (py_str ''1234''))) tag213 =
     Inr ([0x04, 0x74, 0x2F, 0xD7, 0xF1, 0x78, 0x00, 0x00, 0x89, 0x48, 0x00, 0x00, 0xE1, 0x10, 0x12, 0x00,
           0x01, 0x03, 0xA0, 0x0C, 0x34, 0x03, 0x15, 0xD1, 0x01, 0x11, 0x54, 0x02,
           0x65, 0x6E, 0x30, 0x32, 0x31, 0x39, 0x30, 0x35, 0x33, 0x30, 0x31, 0x32, 0x33, 0x34, 0x30, 0x30,
           0xFE, 0x00, 0x00, 0x00] @ list_mul (list_mul [0x00] 28) 4 @ last5)"
proof -
  have enc: "utf8_encode (encode_faba_id (py_str ''1234''))
      = Inr [0x65, 0x6E, 0x30, 0x32, 0x31, 0x39, 0x30, 0x35, 0x33, 0x30, 0x31, 0x32, 0x33, 0x34, 0x30, 0x30]"
    by (simp add: encode_faba_id_def py_str_def utf8_encode_char_def)
  have ne: "encode_faba_id (py_str ''1234'') \<noteq> []"
    by (simp add: encode_faba_id_def py_str_def)
  show ?thesis
    unfolding create_byte_array_payload [OF ne enc]
    by (simp add: tag213_def read_page_ntag_def size_to_mlen_def)
qed

text \<open>
  C2 (amended). For a payload of 16 ASCII characters, and on the path without payload
  whatever the store holds, \<open>create_byte_array\<close> returns an image of \<open>total_pages * 4\<close>
  bytes when \<open>total_pages\<close> is at least 17. Below 17 the filler is empty (a negative
  repeat count gives the empty list) and the image has the 68 bytes of the twelve leading
  and five trailing pages.
\<close>

theorem create_byte_array_length:
  assumes "input_str = None \<or> input_str = Some []
           \<or> (\<exists>s. input_str = Some s \<and> length s = 16 \<and> (\<forall>c\<in>set s. c < 0x80))"
  shows "\<exists>byte_array. create_byte_array input_str ntag = Inr byte_array
           \<and> int (length byte_array) = (if 17 \<le> size_ntag ntag then size_ntag ntag * 4 else 68)"
proof -
  consider (stored) "input_str = None \<or> input_str = Some []"
    | (payload) s where "input_str = Some s" "length s = 16" "\<forall>c\<in>set s. c < 0x80"
    using assms by blast
  then show ?thesis
  proof cases
    case stored
    show ?thesis
      unfolding create_byte_array_stored [OF stored]
      by (simp add: length_extend_pages length_filler last5_def del: extend_pages.simps)
  next
    case payload
    then have ne: "s \<noteq> []" by auto
    have enc: "utf8_encode s = Inr (map of_nat s)"
      using payload(3) by (rule utf8_encode_ascii)
    show ?thesis
      unfolding payload(1) create_byte_array_payload [OF ne enc]
      by (simp add: length_extend_pages length_filler last5_def payload(2) del: extend_pages.simps)
  qed
qed

theorem create_byte_array_length_witness:
  "map_sum id (\<lambda>b. int (length b)) (create_byte_array (Some (encode_faba_id (py_str ''1234''))) tag213)
     = Inr 180"
proof -
  have "length (encode_faba_id (py_str ''1234'')) = 16 \<and> (\<forall>c\<in>set (encode_faba_id (py_str ''1234'')). c < 0x80)"
    by (simp add: encode_faba_id_def py_str_def)
  then have "Some (encode_faba_id (py_str ''1234'')) = None \<or> Some (encode_faba_id (py_str ''1234'')) = Some []
           \<or> (\<exists>s. Some (encode_faba_id (py_str ''1234'')) = Some s \<and> length s = 16 \<and> (\<forall>c\<in>set s. c < 0x80))"
    by blast
  from create_byte_array_length [OF this, of tag213] show ?thesis
    by (auto simp: tag213_def)
qed

text \<open>
  C2 as stated fails in two ways: with \<open>total_pages = 16\<close> the image has 68 bytes, not
  64; and a payload of 16 characters that are not ASCII (sixteen times U+00E9) is 32 bytes
  long, which gives 196 bytes for a tag of 45 pages.
\<close>

theorem create_byte_array_length_counterexample:
  "map_sum id (\<lambda>b. int (length b) = size_ntag small_tag * 4)
      (create_byte_array (Some (encode_faba_id (py_str ''1234''))) small_tag) = Inr False
   \<and> map_sum id (\<lambda>b. int (length b) = size_ntag tag213 * 4)
      (create_byte_array (Some accented_payload) tag213) = Inr False"
proof -
  have enc1: "utf8_encode (encode_faba_id (py_str ''1234''))
      = Inr [0x65, 0x6E, 0x30, 0x32, 0x31, 0x39, 0x30, 0x35, 0x33, 0x30, 0x31, 0x32, 0x33, 0x34, 0x30, 0x30]"
    by (simp add: encode_faba_id_def py_str_def utf8_encode_char_def)
  have ne1: "encode_faba_id (py_str ''1234'') \<noteq> []"
    by (simp add: encode_faba_id_def py_str_def)
  have one: "map_sum id (\<lambda>b. int (length b) = size_ntag small_tag * 4)
      (create_byte_array (Some (encode_faba_id (py_str ''1234''))) small_tag) = Inr False"
    unfolding create_byte_array_payload [OF ne1 enc1]
    by (simp add: length_extend_pages length_filler last5_def small_tag_def del: extend_pages.simps)
  have enc2: "utf8_encode accented_payload
      = Inr [0xC3, 0xA9, 0xC3, 0xA9, 0xC3, 0xA9, 0xC3, 0xA9, 0xC3, 0xA9, 0xC3, 0xA9, 0xC3, 0xA9, 0xC3, 0xA9,
             0xC3, 0xA9, 0xC3, 0xA9, 0xC3, 0xA9, 0xC3, 0xA9, 0xC3, 0xA9, 0xC3, 0xA9, 0xC3, 0xA9, 0xC3, 0xA9]"
    by (simp add: utf8_encode_char_def accented_payload_def)
  have ne2: "accented_payload \<noteq> []" by (simp add: accented_payload_def)
  have two: "map_sum id (\<lambda>b. int (length b) = size_ntag tag213 * 4)
      (create_byte_array (Some accented_payload) tag213) = Inr False"
    unfolding create_byte_array_payload [OF ne2 enc2]
    by (simp add: length_extend_pages length_filler last5_def tag213_def del: extend_pages.simps)
  from one two show ?thesis by simp
qed

subsection \<open>Writing\<close>

lemma written_pages_append: "written_pages (xs @ ys) = written_pages xs @ written_pages ys"
  by (simp add: written_pages_def)

lemma written_pages_reads: "written_pages (map ReadBlock ks) = []"
  by (induction ks) (simp_all add: written_pages_def)

lemma written_pages_writes: "written_pages (map (\<lambda>k. WriteBlock k (f k)) ks) = ks"
  by (induction ks) (simp_all add: written_pages_def)

lemma written_pages_poll: "written_pages (ReadPassiveTarget # cmds) = written_pages cmds"
  by (simp add: written_pages_def)

lemma written_pages_mem: "WriteBlock n d \<in> set cmds \<Longrightarrow> n \<in> set (written_pages cmds)"
  by (induction cmds) (auto simp: written_pages_def)

lemma write_blocks_loop_trace:
  "write_blocks_loop pn532 tr byte_array ks = (r, tr') \<Longrightarrow>
     \<exists>n\<le>length ks. tr' = tr @ map (\<lambda>k. WriteBlock k (expected_page byte_array k)) (take n ks)
        \<and> (r = AllWritten \<longrightarrow> n = length ks)"
proof (induction ks arbitrary: tr)
  case Nil
  then show ?case by simp
next
  case (Cons k ks)
  let ?w = "WriteBlock k (expected_page byte_array k)"
  show ?case
  proof (cases "ntag2xx_write_block pn532 tr k (expected_page byte_array k) = Returned True")
    case True
    with Cons.prems have "write_blocks_loop pn532 (tr @ [?w]) byte_array ks = (r, tr')"
      by (simp add: expected_page_def Let_def)
    from Cons.IH [OF this] obtain n where n: "n \<le> length ks"
      "tr' = (tr @ [?w]) @ map (\<lambda>k. WriteBlock k (expected_page byte_array k)) (take n ks)"
      "r = AllWritten \<longrightarrow> n = length ks"
      by blast
    show ?thesis
      by (rule exI [of _ "Suc n"]) (use n in simp)
  next
    case False
    with Cons.prems have "tr' = tr @ [?w]" "r \<noteq> AllWritten"
      by (auto simp: expected_page_def Let_def split: resp.splits if_splits)
    then show ?thesis
      by (intro exI [of _ "Suc 0"]) simp
  qed
qed

lemma verify_blocks_loop_trace:
  "verify_blocks_loop pn532 tr byte_array ks = (r, tr') \<Longrightarrow>
     \<exists>n\<le>length ks. tr' = tr @ map ReadBlock (take n ks)"
proof (induction ks arbitrary: tr)
  case Nil
  then show ?case by simp
next
  case (Cons k ks)
  show ?case
  proof (cases "verify_blocks_loop pn532 (tr @ [ReadBlock k]) byte_array ks = (r, tr')")
    case True
    from Cons.IH [OF this] obtain n where "n \<le> length ks"
      "tr' = (tr @ [ReadBlock k]) @ map ReadBlock (take n ks)" by blast
    then show ?thesis
      by (intro exI [of _ "Suc n"]) simp
  next
    case False
    with Cons.prems have "tr' = tr @ [ReadBlock k]"
      by (auto simp: read_page_def Let_def split: option.splits if_splits resp.splits)
    then show ?thesis
      by (intro exI [of _ "Suc 0"]) simp
  qed
qed

lemma write_blocks_trace:
  assumes "write_blocks pn532 tr byte_array start end ntag = (r, tr')"
  shows "\<exists>n\<le>length [start..end].
           tr' = tr @ ReadPassiveTarget # map (\<lambda>k. WriteBlock k (expected_page byte_array k)) (take n [start..end])
         \<and> (r = Inr AllWritten \<longrightarrow> n = length [start..end])
         \<and> (read_passive_target pn532 tr \<noteq> Returned (uid ntag) \<longrightarrow> n = 0)"
proof (cases "read_passive_target pn532 tr = Returned (uid ntag)")
  case True
  obtain w t where l: "write_blocks_loop pn532 (tr @ [ReadPassiveTarget]) byte_array [start..end] = (w, t)"
    by (cases "write_blocks_loop pn532 (tr @ [ReadPassiveTarget]) byte_array [start..end]")
  with True assms have r: "r = Inr w" "tr' = t"
    by (simp_all add: write_blocks_def)
  from write_blocks_loop_trace [OF l] obtain n where "n \<le> length [start..end]"
    "t = (tr @ [ReadPassiveTarget]) @ map (\<lambda>k. WriteBlock k (expected_page byte_array k)) (take n [start..end])"
    "w = AllWritten \<longrightarrow> n = length [start..end]"
    by blast
  with r True show ?thesis
    by (intro exI [of _ n]) simp
next
  case False
  with assms have "tr' = tr @ [ReadPassiveTarget]" "r \<noteq> Inr AllWritten"
    by (auto simp: write_blocks_def split: resp.splits if_splits)
  with False show ?thesis
    by (intro exI [of _ 0]) simp
qed

text \<open>
  C5. \<open>write_blocks\<close> polls the tag once. If the UID it gets differs from the UID stored
  at detection, the result is the UID-mismatch failure and the poll is the only command
  issued. Everything issued after the poll is a page write, and a page write is issued
  only when the poll returned exactly the stored UID.
\<close>

theorem write_blocks_uid_check:
  assumes "write_blocks pn532 tr byte_array start end ntag = (r, tr')"
  shows "(\<forall>u. read_passive_target pn532 tr = Returned u \<and> u \<noteq> uid ntag
            \<longrightarrow> r = Inr UidNotMatching \<and> tr' = tr @ [ReadPassiveTarget])
       \<and> (\<exists>cmds. tr' = tr @ ReadPassiveTarget # cmds
             \<and> (\<forall>c\<in>set cmds. \<exists>n d. c = WriteBlock n d)
             \<and> (cmds \<noteq> [] \<longrightarrow> read_passive_target pn532 tr = Returned (uid ntag)))"
proof
  show "\<forall>u. read_passive_target pn532 tr = Returned u \<and> u \<noteq> uid ntag
            \<longrightarrow> r = Inr UidNotMatching \<and> tr' = tr @ [ReadPassiveTarget]"
    using assms by (auto simp: write_blocks_def)
next
  from write_blocks_trace [OF assms] obtain n where
    t: "tr' = tr @ ReadPassiveTarget # map (\<lambda>k. WriteBlock k (expected_page byte_array k)) (take n [start..end])"
    and z: "read_passive_target pn532 tr \<noteq> Returned (uid ntag) \<longrightarrow> n = 0"
    by blast
  let ?cmds = "map (\<lambda>k. WriteBlock k (expected_page byte_array k)) (take n [start..end])"
  have "\<forall>c\<in>set ?cmds. \<exists>n d. c = WriteBlock n d" by auto
  moreover have "?cmds \<noteq> [] \<longrightarrow> read_passive_target pn532 tr = Returned (uid ntag)"
    using z by auto
  ultimately show "\<exists>cmds. tr' = tr @ ReadPassiveTarget # cmds
             \<and> (\<forall>c\<in>set cmds. \<exists>n d. c = WriteBlock n d)
             \<and> (cmds \<noteq> [] \<longrightarrow> read_passive_target pn532 tr = Returned (uid ntag))"
    using t by blast
qed

theorem write_blocks_uid_check_witness:
  "write_blocks swapped_reader [] mismatch_image 4 11 tag213 = (Inr UidNotMatching, [ReadPassiveTarget])
   \<and> snd (write_blocks echo_reader [] mismatch_image 4 4 tag213)
        = [ReadPassiveTarget, WriteBlock 4 [0x00, 0x00, 0x00, 0x00]]
   \<and> read_passive_target echo_reader [] = Returned (uid tag213)"
proof -
  obtain r tr' where w: "write_blocks swapped_reader [] mismatch_image 4 11 tag213 = (r, tr')"
    by (cases "write_blocks swapped_reader [] mismatch_image 4 11 tag213")
  have rp: "read_passive_target swapped_reader [] = Returned (Some [0x04, 0xA1, 0xB2, 0xC3, 0xD4, 0xE5, 0xF6])"
    by (simp add: swapped_reader_def)
  have ne: "Some [0x04, 0xA1, 0xB2, 0xC3, 0xD4, 0xE5, 0xF6] \<noteq> uid tag213"
    by (simp add: tag213_def)
  from write_blocks_uid_check [OF w, THEN conjunct1, rule_format,
      of "Some [0x04, 0xA1, 0xB2, 0xC3, 0xD4, 0xE5, 0xF6]"] rp ne
  have "r = Inr UidNotMatching \<and> tr' = [ReadPassiveTarget]" by simp
  with w have first: "write_blocks swapped_reader [] mismatch_image 4 11 tag213
      = (Inr UidNotMatching, [ReadPassiveTarget])" by simp
  have e: "write_blocks echo_reader [] mismatch_image 4 4 tag213
      = (Inr AllWritten, [ReadPassiveTarget, WriteBlock 4 [0x00, 0x00, 0x00, 0x00]])"
    by (simp add: write_blocks_def echo_reader_def tag213_def mismatch_image_def py_slice_def Let_def)
  from write_blocks_uid_check [OF e, THEN conjunct2]
  have "read_passive_target echo_reader [] = Returned (uid tag213)" by auto
  with first e show ?thesis by simp
qed

lemma upto_4_11: "[4..11] = [4, 5, 6, 7, 8, 9, 10, 11 :: int]"
  by (simp add: upto_rec1)

text \<open>
  C8. Whatever the identifier, the tag and the reader, the page writes that \<open>write_ntag\<close>
  issues are writes of pages 4, 5, ... in ascending order, never beyond page 11: no write
  goes to pages 0 to 3 or to a page from 12 on. When the write phase succeeds (the
  operation then ends verified or with a verification failure) the pages written are
  exactly 4 to 11.
\<close>

theorem write_ntag_pages_4_to_11:
  assumes "write_ntag pn532 tr id_str ntag = (r, tr')"
  shows "\<exists>cmds. tr' = tr @ cmds
           \<and> (\<exists>n. written_pages cmds = take n [4, 5, 6, 7, 8, 9, 10, 11])
           \<and> (\<forall>n d. WriteBlock n d \<in> set cmds \<longrightarrow> 4 \<le> n \<and> n \<le> 11)
           \<and> ((\<exists>files. r = Inr (SuccessfullyWritten files)) \<or> (\<exists>v. r = Inr (NotVerified v))
                \<longrightarrow> written_pages cmds = [4, 5, 6, 7, 8, 9, 10, 11])"
proof -
  have frame: "\<forall>n d. WriteBlock n d \<in> set cmds \<longrightarrow> 4 \<le> n \<and> n \<le> 11"
    if "written_pages cmds = take k [4, 5, 6, 7, 8, 9, 10, 11]" for cmds k
  proof (intro allI impI)
    fix n d assume "WriteBlock n d \<in> set cmds"
    then have "n \<in> set (take k [4, 5, 6, 7, 8, 9, 10, 11])"
      using written_pages_mem that by metis
    then have "n \<in> set [4, 5, 6, 7, 8, 9, 10, 11]"
      by (rule in_set_takeD)
    then show "4 \<le> n \<and> n \<le> 11" by auto
  qed
  have goal: "\<exists>cmds. tr' = tr @ cmds
           \<and> (\<exists>n. written_pages cmds = take n [4, 5, 6, 7, 8, 9, 10, 11])
           \<and> ((\<exists>files. r = Inr (SuccessfullyWritten files)) \<or> (\<exists>v. r = Inr (NotVerified v))
                \<longrightarrow> written_pages cmds = [4, 5, 6, 7, 8, 9, 10, 11])"
  proof (cases "uid ntag")
    case None
    with assms have "tr' = tr" "r = Inl TypeError" by (simp_all add: write_ntag_def)
    then show ?thesis
      by (intro exI [of _ "[]"]) (simp add: written_pages_def)
  next
    case (Some u)
    show ?thesis
    proof (cases "create_byte_array (Some (encode_faba_id id_str)) ntag")
      case (Inl e)
      with Some assms have "tr' = tr" "r = Inl e" by (simp_all add: write_ntag_def)
      then show ?thesis
        by (intro exI [of _ "[]"]) (simp add: written_pages_def)
    next
      case (Inr byte_array)
      obtain w tr1 where wb: "write_blocks pn532 tr byte_array 4 11 ntag = (w, tr1)"
        by (cases "write_blocks pn532 tr byte_array 4 11 ntag")
      from write_blocks_trace [OF wb] obtain n where
        t1: "tr1 = tr @ ReadPassiveTarget # map (\<lambda>k. WriteBlock k (expected_page byte_array k)) (take n [4..11])"
        and full: "w = Inr AllWritten \<longrightarrow> n = length [4..11]"
        by blast
      have wp1: "written_pages (ReadPassiveTarget # map (\<lambda>k. WriteBlock k (expected_page byte_array k)) (take n [4..11]))
                  = take n [4, 5, 6, 7, 8, 9, 10, 11]"
        by (simp add: written_pages_poll written_pages_writes upto_4_11)
      show ?thesis
      proof (cases "w = Inr AllWritten")
        case False
        with Some Inr wb assms have "tr' = tr1" "\<forall>files. r \<noteq> Inr (SuccessfullyWritten files)"
          "\<forall>v. r \<noteq> Inr (NotVerified v)"
          by (auto simp: write_ntag_def split: sum.splits)
        with t1 wp1 show ?thesis
          by (intro exI [of _ "ReadPassiveTarget # map (\<lambda>k. WriteBlock k (expected_page byte_array k)) (take n [4..11])"])
            auto
      next
        case True
        obtain v tr2 where vb: "verify_blocks pn532 tr1 byte_array 4 11 = (v, tr2)"
          by (cases "verify_blocks pn532 tr1 byte_array 4 11")
        then have "verify_blocks_loop pn532 tr1 byte_array [4..11] = (v, tr2)"
          by (simp add: verify_blocks_def)
        from verify_blocks_loop_trace [OF this] obtain m where
          t2: "tr2 = tr1 @ map ReadBlock (take m [4..11])" by blast
        from True Some Inr wb vb assms have "tr' = tr2"
          by (auto simp: write_ntag_def split: sum.splits if_splits)
        with t1 t2 have t: "tr' = tr @ (ReadPassiveTarget # map (\<lambda>k. WriteBlock k (expected_page byte_array k)) (take n [4..11]))
               @ map ReadBlock (take m [4..11])"
          by simp
        have n8: "n = 8" using full True by (simp add: upto_4_11)
        have "written_pages ((ReadPassiveTarget # map (\<lambda>k. WriteBlock k (expected_page byte_array k)) (take n [4..11]))
               @ map ReadBlock (take m [4..11])) = [4, 5, 6, 7, 8, 9, 10, 11]"
          by (subst written_pages_append, subst wp1) (simp add: written_pages_reads n8)
        with t show ?thesis
          by (intro exI [of _ "(ReadPassiveTarget # map (\<lambda>k. WriteBlock k (expected_page byte_array k)) (take n [4..11]))
               @ map ReadBlock (take m [4..11])"]) (auto intro: exI [of _ 8])
      qed
    qed
  qed
  then obtain cmds where c: "tr' = tr @ cmds"
    "\<exists>n. written_pages cmds = take n [4, 5, 6, 7, 8, 9, 10, 11]"
    "(\<exists>files. r = Inr (SuccessfullyWritten files)) \<or> (\<exists>v. r = Inr (NotVerified v))
                \<longrightarrow> written_pages cmds = [4, 5, 6, 7, 8, 9, 10, 11]"
    by blast
  from c(2) frame have "\<forall>n d. WriteBlock n d \<in> set cmds \<longrightarrow> 4 \<le> n \<and> n \<le> 11"
    by blast
  with c show ?thesis by blast
qed

theorem write_ntag_pages_4_to_11_witness:
  "written_pages (snd (write_ntag echo_reader [] (py_str ''1234'') tag213)) = [4, 5, 6, 7, 8, 9, 10, 11]
   \<and> fst (write_ntag echo_reader [] (py_str ''1234'') tag213)
       = Inr (SuccessfullyWritten
               [(py_str ''1234.raw'', True), (py_str ''1234.ndef'', True), (py_str ''1234.nfc'', True)])"
proof -
  define A :: "byte list" where "A = [0x04, 0x74, 0x2F, 0xD7, 0xF1, 0x78, 0x00, 0x00, 0x89, 0x48, 0x00, 0x00, 0xE1, 0x10, 0x12, 0x00,
           0x01, 0x03, 0xA0, 0x0C, 0x34, 0x03, 0x15, 0xD1, 0x01, 0x11, 0x54, 0x02,
           0x65, 0x6E, 0x30, 0x32, 0x31, 0x39, 0x30, 0x35, 0x33, 0x30, 0x31, 0x32, 0x33, 0x34, 0x30, 0x30,
           0xFE, 0x00, 0x00, 0x00]"
  define B :: "byte list" where "B = list_mul (list_mul [0x00] 28) 4 @ last5"
  have img: "create_byte_array (Some (encode_faba_id (py_str ''1234''))) tag213 = Inr (A @ B)"
    by (simp add: image_1234 A_def B_def)
  have len: "length A = 48" by (simp add: A_def)
  have pg: "take 4 (drop 16 A) = [0x01, 0x03, 0xA0, 0x0C]" "take 4 (drop 20 A) = [0x34, 0x03, 0x15, 0xD1]"
    "take 4 (drop 24 A) = [0x01, 0x11, 0x54, 0x02]" "take 4 (drop 28 A) = [0x65, 0x6E, 0x30, 0x32]"
    "take 4 (drop 32 A) = [0x31, 0x39, 0x30, 0x35]" "take 4 (drop 36 A) = [0x33, 0x30, 0x31, 0x32]"
    "take 4 (drop 40 A) = [0x33, 0x34, 0x30, 0x30]" "take 4 (drop 44 A) = [0xFE, 0x00, 0x00, 0x00]"
    "take 4 (drop 38 A) = [0x31, 0x32, 0x33, 0x34]"
    by (simp_all add: A_def)
  let ?tr1 = "[ReadPassiveTarget, WriteBlock 4 [0x01, 0x03, 0xA0, 0x0C], WriteBlock 5 [0x34, 0x03, 0x15, 0xD1],
         WriteBlock 6 [0x01, 0x11, 0x54, 0x02], WriteBlock 7 [0x65, 0x6E, 0x30, 0x32],
         WriteBlock 8 [0x31, 0x39, 0x30, 0x35], WriteBlock 9 [0x33, 0x30, 0x31, 0x32],
         WriteBlock 10 [0x33, 0x34, 0x30, 0x30], WriteBlock 11 [0xFE, 0x00, 0x00, 0x00]]"
  let ?tr2 = "?tr1 @ [ReadBlock 4, ReadBlock 5, ReadBlock 6, ReadBlock 7, ReadBlock 8, ReadBlock 9,
         ReadBlock 10, ReadBlock 11]"
  have u: "uid tag213 = Some [0x04, 0x74, 0x2F, 0xF1, 0x78, 0x00, 0x00]"
    by (simp add: tag213_def)
  have wb: "write_blocks echo_reader [] (A @ B) 4 11 tag213 = (Inr AllWritten, ?tr1)"
    by (simp add: write_blocks_def u echo_reader_def upto_4_11 slice_prefix len pg Let_def)
  have vb: "verify_blocks echo_reader ?tr1 (A @ B) 4 11 = (AllVerified, ?tr2)"
    by (simp add: verify_blocks_def echo_reader_def upto_4_11 slice_prefix len pg read_page_def Let_def)
  have dump: "dump_ntag (ListImage (A @ B)) tag213
      = Inr [(py_str ''1234.raw'', True), (py_str ''1234.ndef'', True), (py_str ''1234.nfc'', True)]"
    by (simp add: dump_ntag_def slice_prefix len pg printable_def string_printable_def py_str_def
        save_raw_def save_ndef_def save_flipper_def chunks_formatted_def u Let_def)
  have w: "write_ntag echo_reader [] (py_str ''1234'') tag213
     = (Inr (SuccessfullyWritten
               [(py_str ''1234.raw'', True), (py_str ''1234.ndef'', True), (py_str ''1234.nfc'', True)]),
        ?tr2)"
    by (simp add: write_ntag_def u img wb vb dump Let_def del: append.simps)
  from write_ntag_pages_4_to_11 [OF w] show ?thesis
    by (simp add: w)
qed

subsection \<open>Decoding\<close>

text \<open>The payload loop reads pages from \<open>next_page\<close> on and nothing else of the tag.\<close>

lemma parse_text_payload_cong:
  "(\<forall>k\<ge>next_page. read_page_ntag ntag k = read_page_ntag ntag' k) \<Longrightarrow>
     parse_text_payload ntag full_payload next_page remaining_bytes
       = parse_text_payload ntag' full_payload next_page remaining_bytes"
proof (induction ntag full_payload next_page remaining_bytes rule: parse_text_payload.induct)
  case (1 ntag full_payload next_page remaining_bytes)
  show ?case
  proof (cases "remaining_bytes > 0")
    case False
    then show ?thesis
      by (simp add: parse_text_payload.simps [of ntag] parse_text_payload.simps [of ntag'])
  next
    case pos: True
    have same: "read_page_ntag ntag next_page = read_page_ntag ntag' next_page"
      using 1(2) by simp
    show ?thesis
    proof (cases "read_page_ntag ntag next_page")
      case None
      with same pos show ?thesis
        by (simp add: parse_text_payload.simps [of ntag] parse_text_payload.simps [of ntag'])
    next
      case (Some page_data)
      obtain fp r where step: "parse_text_page page_data full_payload remaining_bytes = (fp, r)"
        by (cases "parse_text_page page_data full_payload remaining_bytes")
      have later: "\<forall>k\<ge>next_page + 1. read_page_ntag ntag k = read_page_ntag ntag' k"
        using 1(2) by simp
      have "parse_text_payload ntag fp (next_page + 1) r = parse_text_payload ntag' fp (next_page + 1) r"
        using 1(1) [OF pos Some step [symmetric] later] .
      with Some same pos step show ?thesis
        by (simp add: parse_text_payload.simps [of ntag full_payload]
            parse_text_payload.simps [of ntag' full_payload])
    qed
  qed
qed

lemma only_decode_error_simps [simp]:
  "only_decode_error (Inl e) = (e = UnicodeDecodeError)" "only_decode_error (Inr x)"
  by (simp_all add: only_decode_error_def)

lemma only_decode_error_decoded: "only_decode_error r \<Longrightarrow> only_decode_error (decoded c r)"
  by (cases r) (simp_all add: decoded_def)

lemma ascii_decode_only: "only_decode_error (ascii_decode bs)"
  by (induction bs) (auto split: sum.splits)

lemma utf8_decode_only: "only_decode_error (utf8_decode bs)"
proof (induction bs rule: length_induct)
  case (1 bs)
  show ?case
  proof (cases bs)
    case Nil
    then show ?thesis by simp
  next
    case (Cons b r)
    have IH: "only_decode_error (utf8_decode ys)" if "length ys \<le> length r" for ys
      using 1 Cons that by simp
    show ?thesis
      unfolding Cons utf8_decode.simps Let_def
      by (simp add: only_decode_error_decoded IH split: list.split)
  qed
qed

lemma utf16_units_only: "only_decode_error (utf16_units little bs)"
proof (induction bs rule: length_induct)
  case (1 bs)
  have IH: "only_decode_error (utf16_units little ys)" if "length ys < length bs" for ys
    using 1 that by simp
  show ?case
  proof (cases bs)
    case Nil
    then show ?thesis by simp
  next
    case (Cons b0 r)
    show ?thesis
    proof (cases r)
      case Nil
      with Cons show ?thesis by simp
    next
      case r: (Cons b1 r')
      have IH': "only_decode_error (utf16_units little ys)" if "length ys \<le> length r'" for ys
        using IH [of ys] that Cons r by simp
      show ?thesis
        unfolding Cons r utf16_units.simps Let_def
        by (simp add: only_decode_error_decoded IH' split: list.split)
    qed
  qed
qed

lemma decode_only: "only_decode_error (decode enc bs)"
  by (cases enc)
    (simp_all add: decode_def utf16_decode_def utf8_decode_only utf16_units_only
      split: list.split del: utf16_units.simps)

text \<open>
  What the type field changes. With a four-byte page 6 whose type field is not 0x54,
  \<open>parse_text\<close> logs "no text record" and then gives exactly the outcome it gives for the
  same pages with type field 0x54: same further log lines, same identifier. The only
  exception it can raise is the UnicodeDecodeError of the two decoders. When the language
  code and the text decode and the text does not start with the prefix 02190530, the
  result is "no valid identifier" and the tag is unchanged.
\<close>

lemma parse_text_type_field_irrelevant:
  assumes "read_page_ntag ntag 6 = Some [h, pl, tf, sb]" and "tf \<noteq> 0x54"
  shows "map_sum id (\<lambda>(log, n). (log, code n)) (parse_text ntag)
           = map_sum id (\<lambda>(log, n). (NoTextRecordFound tf # log, code n))
               (parse_text (add_page ntag 6 [h, pl, 0x54, sb]))
       \<and> (\<forall>e. parse_text ntag = Inl e \<longrightarrow> e = UnicodeDecodeError)
       \<and> (\<forall>lang_code text_content.
             unat (sb AND 0x3F) \<le> length (parse_text_payload ntag [] 7 (uint pl))
             \<and> ascii_decode (take (unat (sb AND 0x3F)) (parse_text_payload ntag [] 7 (uint pl)))
                 = Inr lang_code
             \<and> decode (if sb AND 0x80 \<noteq> 0 then UTF_16 else UTF_8)
                  (drop (unat (sb AND 0x3F)) (parse_text_payload ntag [] 7 (uint pl)))
                 = Inr text_content
             \<and> \<not> startswith text_content (py_str ''02190530'')
           \<longrightarrow> parse_text ntag = Inr ([NoTextRecordFound tf, NoValidFabaId], ntag))"
proof (intro conjI allI impI)
  let ?ntag' = "add_page ntag 6 [h, pl, 0x54, sb]"
  let ?payload = "parse_text_payload ntag [] 7 (uint pl)"
  let ?n = "unat (sb AND 0x3F)"
  let ?enc = "if sb AND 0x80 \<noteq> 0 then UTF_16 else UTF_8"
  have p6: "read_page_ntag ?ntag' 6 = Some [h, pl, 0x54, sb]"
    by (simp add: read_page_ntag_add_page)
  have "\<forall>k\<ge>7. read_page_ntag ?ntag' k = read_page_ntag ntag k"
    by (simp add: read_page_ntag_add_page)
  then have same: "parse_text_payload ?ntag' [] 7 (uint pl) = ?payload"
    by (rule parse_text_payload_cong)
  have c: "code ?ntag' = code ntag"
    by (simp add: add_page_def)
  have unfold: "parse_text ntag =
      (if length ?payload < ?n then Inr ([NoTextRecordFound tf, InvalidNdefRecord], ntag)
       else case ascii_decode (take ?n ?payload) of
              Inl e \<Rightarrow> Inl e
            | Inr lang_code \<Rightarrow>
                (case decode ?enc (drop ?n ?payload) of
                   Inl e \<Rightarrow> Inl e
                 | Inr text_content \<Rightarrow>
                     if startswith text_content (py_str ''02190530'') \<and> length text_content \<ge> 12
                     then Inr ([NoTextRecordFound tf, FabaID (py_slice text_content 8 12)],
                               ntag\<lparr>code := Some (py_slice text_content 8 12)\<rparr>)
                     else Inr ([NoTextRecordFound tf, NoValidFabaId], ntag)))"
    using assms by (simp add: parse_text_def subscript_def Let_def split: sum.split)
  have unfold': "parse_text ?ntag' =
      (if length ?payload < ?n then Inr ([InvalidNdefRecord], ?ntag')
       else case ascii_decode (take ?n ?payload) of
              Inl e \<Rightarrow> Inl e
            | Inr lang_code \<Rightarrow>
                (case decode ?enc (drop ?n ?payload) of
                   Inl e \<Rightarrow> Inl e
                 | Inr text_content \<Rightarrow>
                     if startswith text_content (py_str ''02190530'') \<and> length text_content \<ge> 12
                     then Inr ([FabaID (py_slice text_content 8 12)],
                               ?ntag'\<lparr>code := Some (py_slice text_content 8 12)\<rparr>)
                     else Inr ([NoValidFabaId], ?ntag')))"
    by (simp add: parse_text_def [of ?ntag'] p6 same subscript_def Let_def split: sum.split)
  show "map_sum id (\<lambda>(log, n). (log, code n)) (parse_text ntag)
           = map_sum id (\<lambda>(log, n). (NoTextRecordFound tf # log, code n)) (parse_text ?ntag')"
    unfolding unfold unfold'
    by (simp add: c split: sum.split)
  show "e = UnicodeDecodeError" if "parse_text ntag = Inl e" for e
  proof -
    have a: "only_decode_error (ascii_decode (take ?n ?payload))"
      by (rule ascii_decode_only)
    have d: "only_decode_error (decode ?enc (drop ?n ?payload))"
      by (rule decode_only)
    from that a d show ?thesis
      unfolding unfold
      by (cases "ascii_decode (take ?n ?payload)"; cases "decode ?enc (drop ?n ?payload)")
        (simp_all split: if_splits)
  qed
  fix lang_code text_content
  assume "?n \<le> length ?payload
             \<and> ascii_decode (take ?n ?payload) = Inr lang_code
             \<and> decode ?enc (drop ?n ?payload) = Inr text_content
             \<and> \<not> startswith text_content (py_str ''02190530'')"
  then show "parse_text ntag = Inr ([NoTextRecordFound tf, NoValidFabaId], ntag)"
    unfolding unfold by simp
qed

lemma parse_text_other_record_example:
  "parse_text other_record_tag = Inr ([NoTextRecordFound 0x55, NoValidFabaId], other_record_tag)"
proof -
  have p: "read_page_ntag other_record_tag 6 = Some [0x01, 0x05, 0x55, 0x02]"
    "read_page_ntag other_record_tag 7 = Some [0x65, 0x6E, 0x68, 0x69]"
    "read_page_ntag other_record_tag 8 = Some [0xFE, 0x00, 0x00, 0x00]"
    "read_page_ntag other_record_tag 9 = None"
    by (simp_all add: read_page_ntag_def other_record_tag_def)
  have pl: "parse_text_payload other_record_tag [] 7 (uint (0x05 :: byte)) = [0x65, 0x6E, 0x68, 0x69]"
    by (simp add: parse_text_payload.simps p)
  have t: "(0x55 :: byte) \<noteq> 0x54" by simp
  have n: "unat ((0x02 :: byte) AND 0x3F) = 2" by simp
  have e: "(if (0x02 :: byte) AND 0x80 \<noteq> 0 then UTF_16 else UTF_8) = UTF_8" by simp
  from parse_text_type_field_irrelevant [OF p(1) t, THEN conjunct2, THEN conjunct2, rule_format,
      of "py_str ''en''" "py_str ''hi''"]
  show ?thesis
    unfolding pl n e
    by (simp add: decode_def decoded_def startswith_def py_str_def)
qed

text \<open>
  With either type field, bytes that do not decode make \<open>parse_text\<close> raise: there is no
  handler around its two \<open>decode\<close> calls.
\<close>

lemma parse_text_decode_error_raises:
  assumes "read_page_ntag ntag 6 = Some [h, pl, tf, sb]"
    and "unat (sb AND 0x3F) \<le> length (parse_text_payload ntag [] 7 (uint pl))"
    and "ascii_decode (take (unat (sb AND 0x3F)) (parse_text_payload ntag [] 7 (uint pl))) = Inl e
         \<or> decode (if sb AND 0x80 \<noteq> 0 then UTF_16 else UTF_8)
              (drop (unat (sb AND 0x3F)) (parse_text_payload ntag [] 7 (uint pl))) = Inl e"
  shows "parse_text ntag = Inl UnicodeDecodeError"
proof -
  let ?payload = "parse_text_payload ntag [] 7 (uint pl)"
  let ?n = "unat (sb AND 0x3F)"
  let ?enc = "if sb AND 0x80 \<noteq> 0 then UTF_16 else UTF_8"
  have unfold: "parse_text ntag =
      (case ascii_decode (take ?n ?payload) of
         Inl e \<Rightarrow> Inl e
       | Inr lang_code \<Rightarrow>
           (case decode ?enc (drop ?n ?payload) of
              Inl e \<Rightarrow> Inl e
            | Inr text_content \<Rightarrow> parse_text ntag))"
    using assms(1,2) by (simp add: parse_text_def subscript_def Let_def split: sum.split)
  show ?thesis
  proof (cases "ascii_decode (take ?n ?payload)")
    case (Inl e')
    moreover have "only_decode_error (ascii_decode (take ?n ?payload))"
      by (rule ascii_decode_only)
    ultimately have "ascii_decode (take ?n ?payload) = Inl UnicodeDecodeError" by simp
    then show ?thesis by (subst unfold) simp
  next
    case (Inr lang_code)
    with assms(3) have d: "decode ?enc (drop ?n ?payload) = Inl e" by simp
    moreover have "only_decode_error (decode ?enc (drop ?n ?payload))"
      by (rule decode_only)
    ultimately have "decode ?enc (drop ?n ?payload) = Inl UnicodeDecodeError" by simp
    with Inr show ?thesis by (subst unfold) simp
  qed
qed

text \<open>
  C7 does not hold of the code. A record of another type usually carries bytes that are
  not text. A tag whose page 6 is 01 04 55 00 (type field 0x55, payload length 4, no
  language code, UTF-8) and whose page 7 is FF D8 FF E0 makes \<open>parse_text\<close> raise
  UnicodeDecodeError where the claim promises "no identifier found": the function ends a
  missing page 6 and a payload shorter than the language code with a logged line and a
  return, and has nothing of the kind for bytes that do not decode.
\<close>

theorem parse_text_raises_on_binary_record:
  "read_page_ntag binary_tag 6 = Some [0x01, 0x04, 0x55, 0x00]
   \<and> parse_text binary_tag = Inl UnicodeDecodeError"
proof -
  have p: "read_page_ntag binary_tag 6 = Some [0x01, 0x04, 0x55, 0x00]"
    "read_page_ntag binary_tag 7 = Some [0xFF, 0xD8, 0xFF, 0xE0]"
    by (simp_all add: read_page_ntag_def binary_tag_def)
  have pl: "parse_text_payload binary_tag [] 7 4 = [0xFF, 0xD8, 0xFF, 0xE0]"
    by (simp add: parse_text_payload.simps p)
  have "parse_text binary_tag = Inl UnicodeDecodeError"
    by (simp add: parse_text_def p(1) pl subscript_def decode_def Let_def)
  with p(1) show ?thesis by simp
qed

text \<open>
  C4 does not hold of the code. The \<open>break\<close> at a 0xFE byte leaves the loop over the
  bytes of one page only; the outer loop goes on to the next page while bytes remain. On
  the pages that \<open>write_ntag\<close> itself writes for the identifier 1234 (payload length 0x11,
  sixteen payload bytes in pages 7 to 10, 0xFE at the start of page 11) the first byte of
  page 12 is appended to the payload after the terminator has been seen.
\<close>

theorem parse_text_reads_past_terminator:
  "read_page_ntag written_tag 11 = Some [0xFE, 0x00, 0x00, 0x00]
   \<and> parse_text_payload written_tag [] 7 0x11
       = [0x65, 0x6E, 0x30, 0x32, 0x31, 0x39, 0x30, 0x35, 0x33, 0x30, 0x31, 0x32, 0x33, 0x34, 0x30, 0x30] @ [0x00]
   \<and> parse_text written_tag
       = Inr ([FabaID (py_str ''1234'')], written_tag\<lparr>code := Some (py_str ''1234'')\<rparr>)"
proof -
  have p: "read_page_ntag written_tag 6 = Some [0x01, 0x11, 0x54, 0x02]"
    "read_page_ntag written_tag 7 = Some [0x65, 0x6E, 0x30, 0x32]"
    "read_page_ntag written_tag 8 = Some [0x31, 0x39, 0x30, 0x35]"
    "read_page_ntag written_tag 9 = Some [0x33, 0x30, 0x31, 0x32]"
    "read_page_ntag written_tag 10 = Some [0x33, 0x34, 0x30, 0x30]"
    "read_page_ntag written_tag 11 = Some [0xFE, 0x00, 0x00, 0x00]"
    "read_page_ntag written_tag 12 = Some [0x00, 0x00, 0x00, 0x00]"
    by (simp_all add: read_page_ntag_def written_tag_def)
  have pl: "parse_text_payload written_tag [] 7 0x11
       = [0x65, 0x6E, 0x30, 0x32, 0x31, 0x39, 0x30, 0x35, 0x33, 0x30, 0x31, 0x32, 0x33, 0x34, 0x30, 0x30, 0x00]"
    by (simp add: parse_text_payload.simps p)
  have "parse_text written_tag
       = Inr ([FabaID (py_str ''1234'')], written_tag\<lparr>code := Some (py_str ''1234'')\<rparr>)"
    by (simp add: parse_text_def p(1) pl subscript_def decode_def decoded_def startswith_def
        py_slice_def py_str_def Let_def)
  with p(6) pl show ?thesis by simp
qed

subsection \<open>The round trip\<close>

lemma foldl_add_page_lookup:
  "read_page_ntag (foldl (\<lambda>ntag k. add_page ntag (int k) (f k)) ntag0 [0..<n]) k
     = (if 0 \<le> k \<and> k < int n then Some (f (nat k)) else read_page_ntag ntag0 k)"
proof (induction n)
  case 0
  then show ?case by auto
next
  case (Suc n)
  show ?case
  proof (cases "k = int n")
    case True
    then show ?thesis by (simp add: read_page_ntag_add_page)
  next
    case False
    then show ?thesis
      using Suc by (simp add: read_page_ntag_add_page)
  qed
qed

lemma read_page_load_image:
  "0 \<le> k \<Longrightarrow> k < int (length byte_array div 4) \<Longrightarrow>
     read_page_ntag (load_image byte_array) k = Some (py_slice byte_array (k * 4) (k * 4 + 4))"
  unfolding load_image_def
  by (subst foldl_add_page_lookup) simp

lemma parse_text_page_done: "parse_text_page page_data full_payload 0 = (full_payload, 0)"
  by (cases page_data) simp_all

lemma utf8_decode_ascii: "\<forall>b\<in>set bs. unat b < 0x80 \<Longrightarrow> utf8_decode bs = Inr (map unat bs)"
  by (induction bs) (simp_all add: decoded_def)

lemma filler_head: "\<exists>rest. take 4 (list_mul (list_mul [0x00 :: byte] k) 4 @ last5) = 0x00 # rest"
proof (cases "nat k")
  case 0
  then show ?thesis by (simp add: filler_replicate last5_def)
next
  case (Suc m)
  then have "4 * nat k = Suc (4 * m + 3)" by simp
  then have r: "replicate (4 * nat k) (0x00 :: byte) = 0x00 # replicate (4 * m + 3) 0x00"
    by (metis replicate_Suc)
  show ?thesis
    unfolding filler_replicate r by simp
qed

lemma image_pages:
  assumes "length pre = 16" and "length body = 32" and "take 4 post = z # rest"
  shows "py_slice (pre @ body @ post) 24 28 = take 4 (drop 8 body)"
    and "py_slice (pre @ body @ post) 28 32 = take 4 (drop 12 body)"
    and "py_slice (pre @ body @ post) 32 36 = take 4 (drop 16 body)"
    and "py_slice (pre @ body @ post) 36 40 = take 4 (drop 20 body)"
    and "py_slice (pre @ body @ post) 40 44 = take 4 (drop 24 body)"
    and "py_slice (pre @ body @ post) 44 48 = take 4 (drop 28 body)"
    and "py_slice (pre @ body @ post) 48 52 = z # rest"
proof -
  have post: "post \<noteq> []" using assms(3) by auto
  have "length (take 4 post) = Suc (length rest)" using assms(3) by simp
  then have len: "min (length post) 4 = Suc (length rest)" by simp
  show "py_slice (pre @ body @ post) 24 28 = take 4 (drop 8 body)"
    "py_slice (pre @ body @ post) 28 32 = take 4 (drop 12 body)"
    "py_slice (pre @ body @ post) 32 36 = take 4 (drop 16 body)"
    "py_slice (pre @ body @ post) 36 40 = take 4 (drop 20 body)"
    "py_slice (pre @ body @ post) 40 44 = take 4 (drop 24 body)"
    "py_slice (pre @ body @ post) 44 48 = take 4 (drop 28 body)"
    using assms(1,2) by (simp_all add: py_slice_def)
  have "int (length post) \<ge> 1" using post by (cases post) simp_all
  then have "py_slice (pre @ body @ post) 48 52 = take (nat (min 52 (48 + int (length post)) - 48)) post"
    using assms(1,2) by (simp add: py_slice_def)
  also have "\<dots> = take 4 post"
  proof (cases "4 \<le> length post")
    case True
    then show ?thesis by (simp add: min_def)
  next
    case False
    then have "nat (min 52 (48 + int (length post)) - 48) = length post" by (simp add: min_def)
    with False show ?thesis by simp
  qed
  finally show "py_slice (pre @ body @ post) 48 52 = z # rest" using assms(3) by simp
qed

lemma digit_byte:
  assumes "48 \<le> c" and "c \<le> 57"
  shows "unat (of_nat c :: byte) = c" and "(of_nat c :: byte) \<noteq> 0xFE"
proof -
  show u: "unat (of_nat c :: byte) = c"
    using assms by (simp add: unat_of_nat)
  show "(of_nat c :: byte) \<noteq> 0xFE"
  proof
    assume "(of_nat c :: byte) = 0xFE"
    then have "unat (of_nat c :: byte) = 254" by simp
    with u assms show False by simp
  qed
qed

text \<open>
  C3 (amended). Round trip. For an identifier of four ASCII decimal digits (0 to 9) and any
  tag (whatever its variant and page count, so in particular for 42, 45, 135 and 231
  pages): \<open>create_byte_array\<close> builds an image from \<open>encode_faba_id\<close> of the identifier,
  and \<open>parse_text\<close> on the store that holds this image page by page finds exactly that
  identifier and stores it in \<open>code\<close>.
\<close>

theorem encode_decode_roundtrip:
  assumes "length id_str = 4" and "\<forall>c\<in>set id_str. 48 \<le> c \<and> c \<le> 57"
  shows "\<exists>byte_array.
           create_byte_array (Some (encode_faba_id id_str)) ntag = Inr byte_array
         \<and> parse_text (load_image byte_array)
             = Inr ([FabaID id_str], (load_image byte_array)\<lparr>code := Some id_str\<rparr>)"
proof -
  obtain c0 c1 c2 c3 where id: "id_str = [c0, c1, c2, c3]"
    using assms(1) by (auto simp: length_Suc_conv numeral_eq_Suc)
  define b0 b1 b2 b3 :: byte where "b0 = of_nat c0" and "b1 = of_nat c1"
    and "b2 = of_nat c2" and "b3 = of_nat c3"
  have u: "unat b0 = c0" "unat b1 = c1" "unat b2 = c2" "unat b3 = c3"
    and nt: "b0 \<noteq> 0xFE" "b1 \<noteq> 0xFE" "b2 \<noteq> 0xFE" "b3 \<noteq> 0xFE"
    using assms(2) digit_byte unfolding id b0_def b1_def b2_def b3_def by simp_all
  have lt: "c0 < 128" "c1 < 128" "c2 < 128" "c3 < 128"
    using assms(2) unfolding id by auto
  let ?s = "encode_faba_id id_str"
  let ?bs = "[0x65, 0x6E, 0x30, 0x32, 0x31, 0x39, 0x30, 0x35, 0x33, 0x30, b0, b1, b2, b3, 0x30, 0x30] :: byte list"
  have ne: "?s \<noteq> []" by (simp add: encode_faba_id_def py_str_def)
  have enc: "utf8_encode ?s = Inr ?bs"
    using lt by (simp add: encode_faba_id_def py_str_def id utf8_encode_char_def
        b0_def b1_def b2_def b3_def)
  define pre where "pre = extend_pages ntag [0, 1, 2, 3]"
  define mlen where "mlen = (case map_of size_to_mlen (size_ntag ntag) of Some m \<Rightarrow> m | None \<Rightarrow> 0xA0)"
  define body where "body = [0x01, 0x03, mlen, 0x0C, 0x34, 0x03, 0x15, 0xD1, 0x01, 0x11, 0x54, 0x02] @ ?bs
                              @ [0xFE, 0x00, 0x00, 0x00]"
  define post where "post = list_mul (list_mul [0x00 :: byte] (size_ntag ntag - 17)) 4 @ last5"
  define img where "img = pre @ body @ post"
  have created: "create_byte_array (Some ?s) ntag = Inr img"
    unfolding create_byte_array_payload [OF ne enc]
    by (simp add: img_def pre_def body_def post_def mlen_def)
  have lpre: "length pre = 16" by (simp add: pre_def length_extend_pages del: extend_pages.simps)
  have lbody: "length body = 32" by (simp add: body_def)
  obtain rest where hd: "take 4 post = 0x00 # rest"
    unfolding post_def using filler_head by blast
  have lpost: "20 \<le> length post" by (simp add: post_def last5_def)
  have limg: "length img div 4 \<ge> 17"
    using lpre lbody lpost by (simp add: img_def)
  note sl = image_pages [OF lpre lbody hd, folded img_def]
  have pg: "read_page_ntag (load_image img) 6 = Some [0x01, 0x11, 0x54, 0x02]"
    "read_page_ntag (load_image img) 7 = Some [0x65, 0x6E, 0x30, 0x32]"
    "read_page_ntag (load_image img) 8 = Some [0x31, 0x39, 0x30, 0x35]"
    "read_page_ntag (load_image img) 9 = Some [0x33, 0x30, b0, b1]"
    "read_page_ntag (load_image img) 10 = Some [b2, b3, 0x30, 0x30]"
    "read_page_ntag (load_image img) 11 = Some [0xFE, 0x00, 0x00, 0x00]"
    "read_page_ntag (load_image img) 12 = Some (0x00 # rest)"
    using limg by (simp_all add: read_page_load_image sl) (simp_all add: body_def)
  have payload: "parse_text_payload (load_image img) [] 7 0x11 = ?bs @ [0x00]"
    by (simp add: parse_text_payload.simps pg nt parse_text_page_done)
  let ?tb = "[0x30, 0x32, 0x31, 0x39, 0x30, 0x35, 0x33, 0x30, b0, b1, b2, b3, 0x30, 0x30, 0x00] :: byte list"
  have "\<forall>b\<in>set ?tb. unat b < 0x80"
    using lt u by simp
  then have "utf8_decode ?tb = Inr (map unat ?tb)"
    by (rule utf8_decode_ascii)
  then have dec: "decode UTF_8 ?tb = Inr [48, 50, 49, 57, 48, 53, 51, 48, c0, c1, c2, c3, 48, 48, 0]"
    by (simp add: decode_def u del: utf8_decode.simps)
  have "parse_text (load_image img)
          = Inr ([FabaID id_str], (load_image img)\<lparr>code := Some id_str\<rparr>)"
    unfolding parse_text_def pg(1)
    by (simp add: subscript_def payload dec startswith_def py_slice_def py_str_def id Let_def)
  with created show ?thesis by blast
qed

theorem encode_decode_roundtrip_witness:
  "map_sum id (\<lambda>byte_array. map_sum id fst (parse_text (load_image byte_array)))
     (create_byte_array (Some (encode_faba_id (py_str ''1234''))) tag213)
     = Inr (Inr [FabaID (py_str ''1234'')])"
proof -
  have "length (py_str ''1234'') = 4" "\<forall>c\<in>set (py_str ''1234''). 48 \<le> c \<and> c \<le> 57"
    by (simp_all add: py_str_def)
  from encode_decode_roundtrip [OF this, of tag213] show ?thesis
    by auto
qed

text \<open>
  C3 as stated fails for the four-digit identifiers that are not ASCII: the check of the
  command line, \<open>re.fullmatch(r"\d{4}", ...)\<close>, accepts every Unicode decimal digit. The
  Arabic-Indic digits U+0661 to U+0664 take two bytes each in UTF-8, the payload is 20
  bytes long, and the 17 bytes that \<open>parse_text\<close> collects end in the middle of a
  character: decoding raises instead of giving the identifier back.
\<close>

theorem encode_decode_roundtrip_counterexample:
  "map_sum id (\<lambda>byte_array. parse_text (load_image byte_array))
     (create_byte_array (Some (encode_faba_id arabic_indic_1234)) tag213)
     = Inr (Inl UnicodeDecodeError)"
proof -
  define A :: "byte list" where "A =
     [0x04, 0x74, 0x2F, 0xD7, 0xF1, 0x78, 0x00, 0x00, 0x89, 0x48, 0x00, 0x00, 0xE1, 0x10, 0x12, 0x00,
      0x01, 0x03, 0xA0, 0x0C, 0x34, 0x03, 0x15, 0xD1, 0x01, 0x11, 0x54, 0x02,
      0x65, 0x6E, 0x30, 0x32, 0x31, 0x39, 0x30, 0x35, 0x33, 0x30, 0xD9, 0xA1, 0xD9, 0xA2, 0xD9, 0xA3,
      0xD9, 0xA4, 0x30, 0x30, 0xFE, 0x00, 0x00, 0x00]"
  define B :: "byte list" where "B = list_mul (list_mul [0x00] 28) 4 @ last5"
  have enc: "utf8_encode (encode_faba_id arabic_indic_1234)
      = Inr [0x65, 0x6E, 0x30, 0x32, 0x31, 0x39, 0x30, 0x35, 0x33, 0x30, 0xD9, 0xA1, 0xD9, 0xA2,
             0xD9, 0xA3, 0xD9, 0xA4, 0x30, 0x30]"
    by (simp add: encode_faba_id_def py_str_def arabic_indic_1234_def utf8_encode_char_def)
  have ne: "encode_faba_id arabic_indic_1234 \<noteq> []"
    by (simp add: encode_faba_id_def py_str_def)
  have created: "create_byte_array (Some (encode_faba_id arabic_indic_1234)) tag213 = Inr (A @ B)"
    unfolding create_byte_array_payload [OF ne enc]
    by (simp add: tag213_def read_page_ntag_def size_to_mlen_def A_def B_def)
  have len: "length A = 52" by (simp add: A_def)
  have pages: "13 \<le> length (A @ B) div 4" by (simp add: len)
  have sl: "py_slice (A @ B) 24 28 = [0x01, 0x11, 0x54, 0x02]"
    "py_slice (A @ B) 28 32 = [0x65, 0x6E, 0x30, 0x32]"
    "py_slice (A @ B) 32 36 = [0x31, 0x39, 0x30, 0x35]"
    "py_slice (A @ B) 36 40 = [0x33, 0x30, 0xD9, 0xA1]"
    "py_slice (A @ B) 40 44 = [0xD9, 0xA2, 0xD9, 0xA3]"
    "py_slice (A @ B) 44 48 = [0xD9, 0xA4, 0x30, 0x30]"
    by (simp_all add: slice_prefix len) (simp_all add: A_def)
  have pg: "read_page_ntag (load_image (A @ B)) 6 = Some [0x01, 0x11, 0x54, 0x02]"
    "read_page_ntag (load_image (A @ B)) 7 = Some [0x65, 0x6E, 0x30, 0x32]"
    "read_page_ntag (load_image (A @ B)) 8 = Some [0x31, 0x39, 0x30, 0x35]"
    "read_page_ntag (load_image (A @ B)) 9 = Some [0x33, 0x30, 0xD9, 0xA1]"
    "read_page_ntag (load_image (A @ B)) 10 = Some [0xD9, 0xA2, 0xD9, 0xA3]"
    "read_page_ntag (load_image (A @ B)) 11 = Some [0xD9, 0xA4, 0x30, 0x30]"
    using pages by (simp_all add: read_page_load_image sl)
  have payload: "parse_text_payload (load_image (A @ B)) [] 7 0x11
      = [0x65, 0x6E, 0x30, 0x32, 0x31, 0x39, 0x30, 0x35, 0x33, 0x30, 0xD9, 0xA1, 0xD9, 0xA2,
         0xD9, 0xA3, 0xD9]"
    by (simp add: parse_text_payload.simps pg)
  have "parse_text (load_image (A @ B)) = Inl UnicodeDecodeError"
    unfolding parse_text_def pg(1)
    by (simp add: subscript_def payload decode_def decoded_def is_cont_def cont_bits_def Let_def)
  with created show ?thesis by simp
qed

subsection \<open>Dump files\<close>

lemma set_string_printable: "set string_printable = {32..126} \<union> {9..13}"
proof (rule card_subset_eq)
  show "finite ({32..126} \<union> {9..13} :: nat set)" by simp
  show "set string_printable \<subseteq> {32..126} \<union> {9..13}"
    by (simp add: string_printable_def py_str_def)
  have d: "distinct string_printable"
    by (simp add: string_printable_def py_str_def)
  have "length string_printable = 100"
    by (simp add: string_printable_def py_str_def)
  with distinct_card [OF d] have "card (set string_printable) = 100" by simp
  moreover have "card ({32..126} \<union> {9..13} :: nat set) = 100"
    by (subst card_Un_disjoint) auto
  ultimately show "card (set string_printable) = card ({32..126} \<union> {9..13} :: nat set)"
    by simp
qed

lemma printable_iff: "printable b \<longleftrightarrow> 0x20 \<le> unat b \<and> unat b \<le> 0x7E"
proof -
  have "b \<ge> 0x20 \<longleftrightarrow> 0x20 \<le> unat b"
    by (simp add: word_le_nat_alt)
  then show ?thesis
    by (auto simp: printable_def set_string_printable)
qed

text \<open>
  C9 (amended). For an image of more than 43 bytes the stem of the three file names is made
  of those of the bytes 38 to 41 that are printable ASCII (0x20 to 0x7E), in order, the
  others being dropped; the UID in upper-case hexadecimal is used only when none of the
  four is printable. Each serializer appends its extension to that stem. An image of 43
  bytes or fewer writes no file.
\<close>

theorem dump_ntag_filename_stem:
  assumes "uid ntag = Some u"
  shows "map_sum id (map fst) (dump_ntag byte_array ntag) =
           (if 43 < length (image_bytes byte_array) then
              (let kept = filter (\<lambda>b. 0x20 \<le> unat b \<and> unat b \<le> 0x7E)
                            (py_slice (image_bytes byte_array) 38 42);
                   stem = (if kept = [] then concat (map format_02X u) else map unat kept)
               in Inr [stem @ py_str ''.raw'', stem @ py_str ''.ndef'', stem @ py_str ''.nfc''])
            else Inr [])"
proof -
  have "concat (map (\<lambda>byte. if printable byte then [unat byte] else []) bs)
          = map unat (filter (\<lambda>b. 0x20 \<le> unat b \<and> unat b \<le> 0x7E) bs)" for bs
    by (induction bs) (simp_all add: printable_iff)
  then show ?thesis
    using assms by (simp add: dump_ntag_def save_raw_def save_ndef_def save_flipper_def Let_def)
qed

theorem dump_ntag_filename_stem_witness:
  "map_sum id (map fst) (dump_ntag (BytearrayImage mixed_image) tag213)
     = Inr [py_str ''123.raw'', py_str ''123.ndef'', py_str ''123.nfc'']"
proof -
  have u: "uid tag213 = Some [0x04, 0x74, 0x2F, 0xF1, 0x78, 0x00, 0x00]"
    by (simp add: tag213_def)
  have s: "py_slice mixed_image 38 42 = [0x31, 0x00, 0x32, 0x33]"
    by (simp add: py_slice_def mixed_image_def)
  have l: "length mixed_image = 48" by (simp add: mixed_image_def)
  show ?thesis
    unfolding dump_ntag_filename_stem [OF u]
    by (simp add: s l py_str_def)
qed

text \<open>
  C9 as stated fails: when the bytes 38 to 41 are 31 00 32 33, not all printable, the stem
  is neither those four bytes as ASCII nor the UID but the three printable characters; and
  a four-byte image gives no file name at all.
\<close>

theorem dump_ntag_filename_stem_counterexample:
  "\<not> list_all printable (py_slice mixed_image 38 42)
   \<and> map_sum id (map fst) (dump_ntag (BytearrayImage mixed_image) tag213) \<noteq>
       Inr [concat (map format_02X [0x04, 0x74, 0x2F, 0xF1, 0x78, 0x00, 0x00]) @ py_str ''.raw'',
            concat (map format_02X [0x04, 0x74, 0x2F, 0xF1, 0x78, 0x00, 0x00]) @ py_str ''.ndef'',
            concat (map format_02X [0x04, 0x74, 0x2F, 0xF1, 0x78, 0x00, 0x00]) @ py_str ''.nfc'']
   \<and> map_sum id (map fst) (dump_ntag (BytearrayImage mixed_image) tag213)
       = Inr [py_str ''123.raw'', py_str ''123.ndef'', py_str ''123.nfc'']
   \<and> dump_ntag (BytearrayImage [0x31, 0x32, 0x33, 0x34]) tag213 = Inr []"
proof -
  have s: "py_slice mixed_image 38 42 = [0x31, 0x00, 0x32, 0x33]"
    by (simp add: py_slice_def mixed_image_def)
  have l: "length mixed_image = 48" by (simp add: mixed_image_def)
  have d: "map_sum id (map fst) (dump_ntag (BytearrayImage mixed_image) tag213)
      = Inr [py_str ''123.raw'', py_str ''123.ndef'', py_str ''123.nfc'']"
    by (simp add: dump_ntag_def s l printable_iff save_raw_def save_ndef_def save_flipper_def py_str_def)
  have n: "\<not> list_all printable (py_slice mixed_image 38 42)"
    by (simp add: s printable_iff)
  have e: "dump_ntag (BytearrayImage [0x31, 0x32, 0x33, 0x34]) tag213 = Inr []"
    by (simp add: dump_ntag_def)
  show ?thesis
    unfolding d using n e by (simp add: py_str_def format_02X_def hex_upper_def)
qed

end
